theory Spec2Isabelle
  imports Main "HOL-Library.Sublist"
begin

section \<open>Token taxonomy\<close>

text \<open>
  The scanner of \<^verbatim>\<open>src/linkify/core/scanner.js\<close> imports its token classes from
  \<^verbatim>\<open>./tokens\<close>. Only the names used by the scanner matter here: a token class is a
  tag, and a token is a tag together with the matched text.
\<close>

datatype token_class =
    T_DOMAIN | T_LOCALHOST | T_NUM | T_PROTOCOL | T_TLD | T_WS
  | T_AT | T_DOT | T_PLUS | T_POUND | T_QUERY | T_SLASH | T_COLON
  | T_OPENBRACE | T_OPENBRACKET | T_OPENPAREN
  | T_CLOSEBRACE | T_CLOSEBRACKET | T_CLOSEPAREN
  | T_PUNCTUATION | T_NL | T_SYM

datatype token = Token (tok_class: token_class) (tok_text: string)

datatype error = TypeError

section \<open>Automaton states\<close>

text \<open>
  Modelled from the spec: the class \<^verbatim>\<open>CharacterState\<close> with its methods
  \<^verbatim>\<open>on\<close>, \<^verbatim>\<open>next\<close>, \<^verbatim>\<open>accepts\<close>, \<^verbatim>\<open>emit\<close> (module \<^verbatim>\<open>./state\<close>, which is not
  among the sources). A state is a mapping from single characters to a successor state
  (keys unique), an optional default successor and an optional accept tag.

  States are objects that the construction mutates and shares, so they live in a store:
  a list of states, a reference being an index. A string is a list of code units,
  modelled by \<^typ>\<open>char\<close>.
\<close>

record state =
  jmap :: "char \<rightharpoonup> nat"
  d :: "nat option"
  T :: "token_class option"

type_synonym heap = "state list"

text \<open>\<^verbatim>\<open>new State(tokenClass)\<close>: a fresh state without transitions.\<close>

definition makeState :: "token_class option \<Rightarrow> heap \<Rightarrow> nat \<times> heap" where
  "makeState tokenClass h = (length h, h @ [\<lparr>jmap = Map.empty, d = None, T = tokenClass\<rparr>])"

text \<open>
  Modelled from the spec: \<^verbatim>\<open>state.on(symbol, nextState)\<close> registers a single-character
  edge. Keys are unique and the fallback wiring only concerns characters
  ``not already mapped'': an edge registered first is kept.
\<close>

definition State_on :: "nat \<Rightarrow> char \<Rightarrow> nat \<Rightarrow> heap \<Rightarrow> heap" where
  "State_on s symbol nextState h =
     (if jmap (h ! s) symbol = None
      then h[s := (h ! s)\<lparr>jmap := (jmap (h ! s))(symbol \<mapsto> nextState)\<rparr>]
      else h)"

text \<open>\<^verbatim>\<open>state.on([c1, c2, ...], nextState)\<close>: one edge for each symbol, in order.\<close>

fun State_on_list :: "nat \<Rightarrow> char list \<Rightarrow> nat \<Rightarrow> heap \<Rightarrow> heap" where
  "State_on_list s [] nextState h = h"
| "State_on_list s (symbol # symbols) nextState h =
     State_on_list s symbols nextState (State_on s symbol nextState h)"

text \<open>
  Modelled from the spec: \<^verbatim>\<open>state.next(character)\<close> is the mapped successor if present,
  else the default successor if one is registered, else none.
\<close>

definition State_next :: "heap \<Rightarrow> nat \<Rightarrow> char \<Rightarrow> nat option" where
  "State_next h s c = (case jmap (h ! s) c of Some s' \<Rightarrow> Some s' | None \<Rightarrow> d (h ! s))"

definition State_accepts :: "heap \<Rightarrow> nat \<Rightarrow> bool" where
  "State_accepts h s = (T (h ! s) \<noteq> None)"

definition State_emit :: "heap \<Rightarrow> nat \<Rightarrow> token_class option" where
  "State_emit h s = T (h ! s)"

text \<open>
  Modelled from the spec: \<^verbatim>\<open>stateify(str, start, endToken, defaultToken)\<close> (module
  \<^verbatim>\<open>./state\<close>, not among the sources), the spec's literal insertion. It walks the word
  from \<open>start\<close>, reuses an existing transition, otherwise creates a new state; a new
  state that is not the last of the word carries \<open>defaultToken\<close>, the last one
  \<open>endToken\<close>. It returns the new states in the order of their creation. A state has no
  operation that changes its tag, so a reused state keeps the tag it was created with.
\<close>

fun stateify :: "string \<Rightarrow> nat \<Rightarrow> token_class \<Rightarrow> token_class \<Rightarrow> heap \<Rightarrow> nat list \<times> heap" where
  "stateify [] state endToken defaultToken h = ([], h)"
| "stateify (c # cs) state endToken defaultToken h =
     (case State_next h state c of
        Some nextState \<Rightarrow> stateify cs nextState endToken defaultToken h
      | None \<Rightarrow>
          (case makeState (Some (if cs = [] then endToken else defaultToken)) h of
             (nextState, h1) \<Rightarrow>
               (case stateify cs nextState endToken defaultToken (State_on state c nextState h1) of
                  (newStates, h2) \<Rightarrow> (nextState # newStates, h2))))"

section \<open>Construction of the automaton\<close>

definition NUM :: "char list" where
  "NUM = ''0123456789''"

definition ALPHANUM :: "char list" where
  "ALPHANUM = ''0123456789abcdefghijklmnopqrstuvwxyz''"

text \<open>Space, form feed, carriage return, tab, vertical tab: no line break.\<close>

definition WHITESPACE :: "char list" where
  "WHITESPACE = [CHR '' '', CHR 0x0C, CHR 0x0D, CHR 0x09, CHR 0x0B]"

definition COLON :: char where
  "COLON = CHR '':''"

text \<open>
  The frequently used states are the first five that the module creates, so their
  references are the first five indices of the store.
\<close>

definition S_START :: nat where "S_START = 0"
definition S_NUM :: nat where "S_NUM = 1"
definition S_DOMAIN :: nat where "S_DOMAIN = 2"
definition S_DOMAIN_HYPHEN :: nat where "S_DOMAIN_HYPHEN = 3"
definition S_WS :: nat where "S_WS = 4"

text \<open>A block of statements on the store, in the order of the source.\<close>

definition steps :: "('a \<Rightarrow> 'a) list \<Rightarrow> 'a \<Rightarrow> 'a" where
  "steps fs = fold (\<lambda>f. f) fs"

definition frequent_states :: heap where
  "frequent_states =
     steps
       [snd \<circ> makeState None,
        snd \<circ> makeState (Some T_NUM),
        snd \<circ> makeState (Some T_DOMAIN),
        snd \<circ> makeState None,
        snd \<circ> makeState (Some T_WS)] []"

text \<open>\<^verbatim>\<open>state.on(symbols, makeState(tokenClass))\<close>.\<close>

definition on_new :: "nat \<Rightarrow> char list \<Rightarrow> token_class \<Rightarrow> heap \<Rightarrow> heap" where
  "on_new s symbols tokenClass h =
     (case makeState (Some tokenClass) h of (n, h1) \<Rightarrow> State_on_list s symbols n h1)"

text \<open>States for special URL symbols, then the whitespace jumps (lines 40 to 63).\<close>

definition symbol_states :: "heap \<Rightarrow> heap" where
  "symbol_states =
     steps
       [on_new S_START [CHR ''@''] T_AT,
        on_new S_START [CHR ''.''] T_DOT,
        on_new S_START [CHR ''+''] T_PLUS,
        on_new S_START [CHR ''#''] T_POUND,
        on_new S_START [CHR ''?''] T_QUERY,
        on_new S_START [CHR ''/''] T_SLASH,
        on_new S_START [COLON] T_COLON,
        on_new S_START [CHR ''{''] T_OPENBRACE,
        on_new S_START [CHR ''[''] T_OPENBRACKET,
        on_new S_START [CHR ''(''] T_OPENPAREN,
        on_new S_START [CHR ''}''] T_CLOSEBRACE,
        on_new S_START [CHR '']''] T_CLOSEBRACKET,
        on_new S_START [CHR '')''] T_CLOSEPAREN,
        on_new S_START [CHR '','', CHR '';'', CHR ''!'', CHR 0x22] T_PUNCTUATION,
        on_new S_START [CHR 0x0A] T_NL,
        State_on_list S_START WHITESPACE S_WS,
        State_on_list S_WS WHITESPACE S_WS]"

text \<open>
  The loop over the top-level domains (lines 67 to 70); \<open>tlds\<close> stands for the macro
  \<^verbatim>\<open>__TLDS__\<close>, a parameter here. The store and \<open>domainStates\<close> are threaded through.
\<close>

fun tld_states :: "string list \<Rightarrow> nat list \<times> heap \<Rightarrow> nat list \<times> heap" where
  "tld_states [] (domainStates, h) = (domainStates, h)"
| "tld_states (tld # tlds) (domainStates, h) =
     (case stateify tld S_START T_TLD T_DOMAIN h of
        (newStates, h1) \<Rightarrow> tld_states tlds (domainStates @ newStates, h1))"

text \<open>
  \<^verbatim>\<open>array.pop()\<close> gives the last element, or \<^verbatim>\<open>undefined\<close> for an empty array; calling
  \<^verbatim>\<open>on\<close> on \<^verbatim>\<open>undefined\<close> raises a TypeError.
\<close>

definition pop :: "nat list \<Rightarrow> nat option" where
  "pop xs = (if xs = [] then None else Some (last xs))"

text \<open>
  The secure protocols, and the jumps that make a protocol token after a colon
  (lines 90 to 103, without the push to \<open>domainStates\<close>).
\<close>

definition protocol_jumps :: "nat \<Rightarrow> nat \<Rightarrow> nat \<Rightarrow> nat \<Rightarrow> nat \<Rightarrow> heap \<Rightarrow> heap" where
  "protocol_jumps S_PROTOCOL_FILE S_PROTOCOL_FTP S_PROTOCOL_HTTP S_PROTOCOL_SECURE S_FULL_PROTOCOL =
     steps
       [State_on S_PROTOCOL_FTP (CHR ''s'') S_PROTOCOL_SECURE,
        State_on S_PROTOCOL_FTP COLON S_FULL_PROTOCOL,
        State_on S_PROTOCOL_HTTP (CHR ''s'') S_PROTOCOL_SECURE,
        State_on S_PROTOCOL_HTTP COLON S_FULL_PROTOCOL,
        State_on S_PROTOCOL_FILE COLON S_FULL_PROTOCOL,
        State_on S_PROTOCOL_SECURE COLON S_FULL_PROTOCOL]"

text \<open>Lines 72 to 107: the protocol states, the secure protocols, localhost.\<close>

definition protocol_states :: "nat list \<times> heap \<Rightarrow> error + nat list \<times> heap" where
  "protocol_states = (\<lambda>(domainStates, h).
     case stateify ''file'' S_START T_DOMAIN T_DOMAIN h of
       (partialProtocolFileStates, h) \<Rightarrow>
     case stateify ''ftp'' S_START T_DOMAIN T_DOMAIN h of
       (partialProtocolFtpStates, h) \<Rightarrow>
     case stateify ''http'' S_START T_DOMAIN T_DOMAIN h of
       (partialProtocolHttpStates, h) \<Rightarrow>
     case makeState (Some T_DOMAIN) h of (S_PROTOCOL_SECURE, h) \<Rightarrow>
     case makeState (Some T_PROTOCOL) h of (S_FULL_PROTOCOL, h) \<Rightarrow>
     case (pop partialProtocolFileStates, pop partialProtocolFtpStates,
           pop partialProtocolHttpStates) of
       (Some S_PROTOCOL_FILE, Some S_PROTOCOL_FTP, Some S_PROTOCOL_HTTP) \<Rightarrow>
         (case stateify ''localhost'' S_START T_LOCALHOST T_DOMAIN
                 (protocol_jumps S_PROTOCOL_FILE S_PROTOCOL_FTP S_PROTOCOL_HTTP
                    S_PROTOCOL_SECURE S_FULL_PROTOCOL h) of
            (partialLocalhostStates, h) \<Rightarrow>
              Inr (domainStates @ partialProtocolFileStates @ partialProtocolFtpStates
                     @ partialProtocolHttpStates @ [S_PROTOCOL_SECURE]
                     @ partialLocalhostStates, h))
     | _ \<Rightarrow> Inl TypeError)"

text \<open>All generated states get a jump to the hyphen state and to \<open>S_DOMAIN\<close> (lines 123 to 127).\<close>

fun domain_jumps :: "nat list \<Rightarrow> heap \<Rightarrow> heap" where
  "domain_jumps [] h = h"
| "domain_jumps (s # domainStates) h =
     domain_jumps domainStates
       (State_on_list s ALPHANUM S_DOMAIN (State_on s (CHR ''-'') S_DOMAIN_HYPHEN h))"

text \<open>Number and character transitions (lines 112 to 132).\<close>

definition everything_else :: "nat list \<Rightarrow> heap \<Rightarrow> heap" where
  "everything_else domainStates =
     steps
       [State_on_list S_START NUM S_NUM,
        State_on S_NUM (CHR ''-'') S_DOMAIN_HYPHEN,
        State_on_list S_NUM NUM S_NUM,
        State_on_list S_NUM ALPHANUM S_DOMAIN,
        State_on S_DOMAIN (CHR ''-'') S_DOMAIN_HYPHEN,
        State_on_list S_DOMAIN ALPHANUM S_DOMAIN,
        domain_jumps domainStates,
        State_on S_DOMAIN_HYPHEN (CHR ''-'') S_DOMAIN_HYPHEN,
        State_on_list S_DOMAIN_HYPHEN NUM S_DOMAIN,
        State_on_list S_DOMAIN_HYPHEN ALPHANUM S_DOMAIN]"

text \<open>The default transition of the start state (line 135).\<close>

definition default_transition :: "heap \<Rightarrow> heap" where
  "default_transition h =
     (case makeState (Some T_SYM) h of
        (S_SYM, h1) \<Rightarrow> h1[S_START := (h1 ! S_START)\<lparr>d := Some S_SYM\<rparr>])"

text \<open>The module body: the store that \<open>run\<close> scans with, or the error of the construction.\<close>

definition scanner :: "string list \<Rightarrow> error + heap" where
  "scanner tlds =
     (case protocol_states (tld_states tlds ([], symbol_states frequent_states)) of
        Inl e \<Rightarrow> Inl e
      | Inr (domainStates, h) \<Rightarrow> Inr (default_transition (everything_else domainStates h)))"

section \<open>The scanning loop\<close>

text \<open>\<^verbatim>\<open>str.replace(/[A-Z]/g, (c) => c.toLowerCase())\<close>.\<close>

definition lower_char :: "char \<Rightarrow> char" where
  "lower_char c =
     (if c \<in> set ''ABCDEFGHIJKLMNOPQRSTUVWXYZ'' then char_of (of_char c + (32::nat)) else c)"

definition lowerStr :: "string \<Rightarrow> string" where
  "lowerStr str = map lower_char str"

text \<open>
  \<^verbatim>\<open>str.substr(start, length)\<close>: a negative start counts from the end, the length is
  clipped to what is left.
\<close>

definition substr :: "string \<Rightarrow> int \<Rightarrow> int \<Rightarrow> string" where
  "substr str start n =
     (let size = int (length str);
          from = (if start < 0 then max (size + start) 0 else min start size);
          cnt = min (max n 0) (size - from)
      in take (nat cnt) (drop (nat from) str))"

record scan =
  state :: nat
  latestAccepting :: "nat option"
  sinceAccepts :: int
  tokenLength :: int
  cursor :: int

text \<open>The inner loop of \<open>run\<close> (lines 168 to 182).\<close>

function inner_loop :: "heap \<Rightarrow> string \<Rightarrow> int \<Rightarrow> scan \<Rightarrow> scan" where
  "inner_loop h lstr len s =
     (if cursor s < len then
        (case State_next h (state s) (lstr ! nat (cursor s)) of
           None \<Rightarrow> s
         | Some nextState \<Rightarrow>
             inner_loop h lstr len
               \<lparr>state = nextState,
                latestAccepting =
                  (if State_accepts h nextState then Some nextState else latestAccepting s),
                sinceAccepts =
                  (if State_accepts h nextState then 0
                   else if sinceAccepts s \<ge> 0 then sinceAccepts s + 1 else sinceAccepts s),
                tokenLength = tokenLength s + 1,
                cursor = cursor s + 1\<rparr>)
      else s)"
  by pat_completeness auto
termination
  by (relation "measure (\<lambda>(h, lstr, len, s). nat (len - cursor s))") auto

declare inner_loop.simps [simp del]

definition scan_from :: "heap \<Rightarrow> string \<Rightarrow> int \<Rightarrow> int \<Rightarrow> scan" where
  "scan_from h lstr len cur =
     inner_loop h lstr len
       \<lparr>state = S_START, latestAccepting = None, sinceAccepts = - 1,
        tokenLength = 0, cursor = cur\<rparr>"

text \<open>
  The outer loop of \<open>run\<close> (lines 158 to 195). An iteration that found no accepting
  state continues from where the inner loop stopped; when the inner loop did not move
  either, the loop runs forever, which is the value \<open>None\<close>.
\<close>

partial_function (option) run_loop ::
  "heap \<Rightarrow> string \<Rightarrow> string \<Rightarrow> int \<Rightarrow> token list \<Rightarrow> (error + token list) option" where
  "run_loop h str lstr cur tokens =
     (if cur < int (length str) then
        (case scan_from h lstr (int (length str)) cur of s \<Rightarrow>
           if sinceAccepts s < 0 then run_loop h str lstr (cursor s) tokens
           else
             (case latestAccepting s of
                None \<Rightarrow> Some (Inl TypeError)
              | Some la \<Rightarrow>
                  (case State_emit h la of
                     None \<Rightarrow> Some (Inl TypeError)
                   | Some TOKEN \<Rightarrow>
                       run_loop h str lstr (cursor s - sinceAccepts s)
                         (tokens @
                          [Token TOKEN
                             (substr str
                                (cursor s - sinceAccepts s - (tokenLength s - sinceAccepts s))
                                (tokenLength s - sinceAccepts s))]))))
      else Some (Inr tokens))"

declare run_loop.simps [code]

definition run :: "heap \<Rightarrow> string \<Rightarrow> (error + token list) option" where
  "run h str = run_loop h str (lowerStr str) 0 []"

section \<open>The scan as a function on lists\<close>

text \<open>
  The walk of the automaton over a word, the number of characters it can consume, and
  the longest prefix with a walk that ends in an accepting state, together with that
  state. They describe what one iteration of the outer loop of \<open>run\<close> computes.
\<close>

fun walk :: "heap \<Rightarrow> nat \<Rightarrow> string \<Rightarrow> nat option" where
  "walk h s [] = Some s"
| "walk h s (c # cs) = (case State_next h s c of None \<Rightarrow> None | Some s' \<Rightarrow> walk h s' cs)"

fun walk_len :: "heap \<Rightarrow> nat \<Rightarrow> string \<Rightarrow> nat" where
  "walk_len h s [] = 0"
| "walk_len h s (c # cs) = (case State_next h s c of None \<Rightarrow> 0 | Some s' \<Rightarrow> Suc (walk_len h s' cs))"

fun longest_match :: "heap \<Rightarrow> nat \<Rightarrow> string \<Rightarrow> (nat \<times> nat) option" where
  "longest_match h s [] = None"
| "longest_match h s (c # cs) =
     (case State_next h s c of
        None \<Rightarrow> None
      | Some s' \<Rightarrow>
          (case longest_match h s' cs of
             Some (n, a) \<Rightarrow> Some (Suc n, a)
           | None \<Rightarrow> if State_accepts h s' then Some (1, s') else None))"

lemma walk_len_le: "walk_len h s r \<le> length r"
  by (induction h s r rule: walk_len.induct) (auto split: option.splits)

lemma longest_match_bounds:
  "longest_match h s r = Some (n, a) \<Longrightarrow> 0 < n \<and> n \<le> walk_len h s r"
  by (induction h s r arbitrary: n a rule: longest_match.induct)
     (auto split: option.splits if_splits)

lemma inner_loop_fields:
  "0 \<le> cursor s \<Longrightarrow> cursor s \<le> int (length lstr) \<Longrightarrow>
   cursor (inner_loop h lstr (int (length lstr)) s) =
     cursor s + int (walk_len h (state s) (drop (nat (cursor s)) lstr))
   \<and> tokenLength (inner_loop h lstr (int (length lstr)) s) =
     tokenLength s + int (walk_len h (state s) (drop (nat (cursor s)) lstr))
   \<and> (case longest_match h (state s) (drop (nat (cursor s)) lstr) of
        Some (n, a) \<Rightarrow>
          latestAccepting (inner_loop h lstr (int (length lstr)) s) = Some a
          \<and> sinceAccepts (inner_loop h lstr (int (length lstr)) s) =
              int (walk_len h (state s) (drop (nat (cursor s)) lstr)) - int n
      | None \<Rightarrow>
          latestAccepting (inner_loop h lstr (int (length lstr)) s) = latestAccepting s
          \<and> sinceAccepts (inner_loop h lstr (int (length lstr)) s) =
              (if sinceAccepts s \<ge> 0
               then sinceAccepts s + int (walk_len h (state s) (drop (nat (cursor s)) lstr))
               else sinceAccepts s))"
proof (induction h lstr "int (length lstr)" s rule: inner_loop.induct)
  case (1 h lstr s)
  show ?case
  proof (cases "cursor s < int (length lstr)")
    case False
    with 1(2,3) have "drop (nat (cursor s)) lstr = []" by simp
    moreover have "inner_loop h lstr (int (length lstr)) s = s"
      using False by (subst inner_loop.simps) simp
    ultimately show ?thesis by simp
  next
    case True
    let ?k = "nat (cursor s)"
    from True 1(2) have k: "?k < length lstr" by simp
    then have dr: "drop ?k lstr = lstr ! ?k # drop (Suc ?k) lstr"
      by (simp add: Cons_nth_drop_Suc)
    show ?thesis
    proof (cases "State_next h (state s) (lstr ! ?k)")
      case None
      then have "inner_loop h lstr (int (length lstr)) s = s"
        using True by (subst inner_loop.simps) simp
      with None dr show ?thesis by simp
    next
      case (Some q)
      let ?s1 = "\<lparr>state = q,
                latestAccepting =
                  (if State_accepts h q then Some q else latestAccepting s),
                sinceAccepts =
                  (if State_accepts h q then 0
                   else if sinceAccepts s \<ge> 0 then sinceAccepts s + 1 else sinceAccepts s),
                tokenLength = tokenLength s + 1,
                cursor = cursor s + 1\<rparr>"
      have nk: "nat (cursor s + 1) = Suc ?k" using 1(2) by simp
      have IH: "cursor (inner_loop h lstr (int (length lstr)) ?s1) = cursor ?s1 + int (walk_len h (state ?s1) (drop (nat (cursor ?s1)) lstr))
       \<and> tokenLength (inner_loop h lstr (int (length lstr)) ?s1) = tokenLength ?s1 + int (walk_len h (state ?s1) (drop (nat (cursor ?s1)) lstr))
       \<and> (case longest_match h (state ?s1) (drop (nat (cursor ?s1)) lstr) of
            Some (n, a) \<Rightarrow>
              latestAccepting (inner_loop h lstr (int (length lstr)) ?s1) = Some a \<and> sinceAccepts (inner_loop h lstr (int (length lstr)) ?s1) = int (walk_len h (state ?s1) (drop (nat (cursor ?s1)) lstr)) - int n
          | None \<Rightarrow>
              latestAccepting (inner_loop h lstr (int (length lstr)) ?s1) = latestAccepting ?s1
              \<and> sinceAccepts (inner_loop h lstr (int (length lstr)) ?s1) =
                  (if sinceAccepts ?s1 \<ge> 0 then sinceAccepts ?s1 + int (walk_len h (state ?s1) (drop (nat (cursor ?s1)) lstr))
                   else sinceAccepts ?s1))"
        using 1(1)[OF True Some] True 1(2) by simp
      have unf: "inner_loop h lstr (int (length lstr)) s = inner_loop h lstr (int (length lstr)) ?s1"
        using True Some by (subst inner_loop.simps) simp
      show ?thesis
      proof (cases "longest_match h q (drop (Suc ?k) lstr)")
        case None
        then show ?thesis
          unfolding unf using IH Some dr nk by (cases "State_accepts h q") simp_all
      next
        case (Some na)
        then show ?thesis
          unfolding unf using IH \<open>State_next h (state s) (lstr ! ?k) = Some q\<close> dr nk
          by (cases na) simp
      qed
    qed
  qed
qed


lemma longest_match_accepts:
  "longest_match h s r = Some (n, a) \<Longrightarrow> T (h ! a) \<noteq> None"
  by (induction h s r arbitrary: n a rule: longest_match.induct)
     (auto split: option.splits if_splits simp: State_accepts_def)

definition start_ok :: "heap \<Rightarrow> bool" where
  "start_ok h \<longleftrightarrow> (\<forall>c. \<exists>s. State_next h S_START c = Some s \<and> T (h ! s) \<noteq> None)"

lemma start_ok_match:
  assumes "start_ok h" "r \<noteq> []"
  obtains n a t where "longest_match h S_START r = Some (n, a)" "T (h ! a) = Some t"
proof -
  from assms(2) obtain c cs where r: "r = c # cs" by (cases r) auto
  from assms(1) obtain s where s: "State_next h S_START c = Some s" "T (h ! s) \<noteq> None"
    unfolding start_ok_def by blast
  then obtain n a where m: "longest_match h S_START r = Some (n, a)"
    unfolding r by (cases "longest_match h s cs") (auto simp: State_accepts_def)
  with longest_match_accepts[OF m] that show thesis by auto
qed

function scan_tokens :: "heap \<Rightarrow> string \<Rightarrow> string \<Rightarrow> token list" where
  "scan_tokens h str lstr =
     (if lstr = [] then []
      else case longest_match h S_START lstr of
             None \<Rightarrow> []
           | Some (n, a) \<Rightarrow>
               (case T (h ! a) of
                  None \<Rightarrow> []
                | Some t \<Rightarrow> Token t (take n str) # scan_tokens h (drop n str) (drop n lstr)))"
  by pat_completeness auto
termination
  by (relation "measure (\<lambda>(h, str, lstr). length lstr)")
     (auto dest!: longest_match_bounds)

declare scan_tokens.simps [simp del]

lemma run_loop_step:
  assumes k: "0 \<le> k" "k < int (length str)" and len: "length lstr = length str"
    and m: "longest_match h S_START (drop (nat k) lstr) = Some (n, a)"
    and t: "T (h ! a) = Some t"
  shows "run_loop h str lstr k toks =
         run_loop h str lstr (k + int n) (toks @ [Token t (take n (drop (nat k) str))])"
proof -
  let ?init = "\<lparr>state = S_START, latestAccepting = None, sinceAccepts = - 1,
        tokenLength = 0, cursor = k\<rparr>"
  let ?s = "scan_from h lstr (int (length str)) k"
  let ?m = "walk_len h S_START (drop (nat k) lstr)"
  have f: "cursor ?s = k + int ?m" "tokenLength ?s = int ?m"
     "latestAccepting ?s = Some a" "sinceAccepts ?s = int ?m - int n"
    using inner_loop_fields[where s = ?init and lstr = lstr and h = h] k m
    unfolding scan_from_def len[symmetric] by simp_all
  from longest_match_bounds[OF m] have n: "0 < n" "n \<le> ?m" by auto
  have "?m \<le> length (drop (nat k) lstr)" by (rule walk_len_le)
  with n k len have nle: "int n \<le> int (length str) - k" by simp
  have sub: "substr str k (int n) = take n (drop (nat k) str)"
    using k nle by (simp add: substr_def Let_def min_def max_def)
  show ?thesis
    using k f n t sub by (subst run_loop.simps) (simp add: State_emit_def)
qed

lemma run_loop_scan_tokens:
  assumes "start_ok h" "length lstr = length str" "0 \<le> k" "k \<le> int (length str)"
  shows "run_loop h str lstr k toks =
         Some (Inr (toks @ scan_tokens h (drop (nat k) str) (drop (nat k) lstr)))"
  using assms(3,4)
proof (induction "length str - nat k" arbitrary: k toks rule: less_induct)
  case less
  show ?case
  proof (cases "k < int (length str)")
    case False
    with less.prems have "drop (nat k) lstr = []" using assms(2) by simp
    with False show ?thesis
      by (subst run_loop.simps, subst scan_tokens.simps) simp
  next
    case True
    with less.prems assms(2) have ne: "drop (nat k) lstr \<noteq> []" by simp
    from start_ok_match[OF assms(1) ne] obtain n a t where
      m: "longest_match h S_START (drop (nat k) lstr) = Some (n, a)" and t: "T (h ! a) = Some t"
      by blast
    from longest_match_bounds[OF m] walk_len_le[of h S_START "drop (nat k) lstr"]
    have n: "0 < n" "n \<le> length (drop (nat k) lstr)" by auto
    have nk: "nat (k + int n) = nat k + n" using less.prems by simp
    have "run_loop h str lstr (k + int n) (toks @ [Token t (take n (drop (nat k) str))]) =
          Some (Inr ((toks @ [Token t (take n (drop (nat k) str))]) @
             scan_tokens h (drop (nat (k + int n)) str) (drop (nat (k + int n)) lstr)))"
      using n less.prems assms(2) True by (intro less.hyps) auto
    then show ?thesis
      using run_loop_step[OF less.prems(1) True assms(2) m t, of toks] ne m t
      by (subst scan_tokens.simps) (simp add: nk add.commute)
  qed
qed

lemma length_lowerStr [simp]: "length (lowerStr str) = length str"
  by (simp add: lowerStr_def)

lemma run_scan_tokens:
  "start_ok h \<Longrightarrow> run h str = Some (Inr (scan_tokens h str (lowerStr str)))"
  using run_loop_scan_tokens[of h "lowerStr str" str 0 "[]"] by (simp add: run_def)

section \<open>The store during the construction\<close>

subsection \<open>Store operations\<close>

lemma makeState_simps [simp]:
  "fst (makeState t h) = length h"
  "snd (makeState t h) = h @ [\<lparr>jmap = Map.empty, d = None, T = t\<rparr>]"
  by (simp_all add: makeState_def)

lemma length_State_on [simp]: "length (State_on s c n h) = length h"
  by (simp add: State_on_def)

lemma T_State_on [simp]: "T (State_on s c n h ! q) = T (h ! q)"
  by (cases "s < length h"; cases "q = s") (simp_all add: State_on_def list_update_beyond)

lemma d_State_on [simp]: "d (State_on s c n h ! q) = d (h ! q)"
  by (cases "s < length h"; cases "q = s") (simp_all add: State_on_def list_update_beyond)

lemma jmap_State_on:
  "jmap (State_on s c n h ! q) x =
     (if q = s \<and> s < length h \<and> x = c \<and> jmap (h ! s) c = None then Some n
      else jmap (h ! q) x)"
  by (cases "s < length h"; cases "q = s") (auto simp: State_on_def list_update_beyond)

lemma length_State_on_list [simp]: "length (State_on_list s cs n h) = length h"
  by (induction cs arbitrary: h) simp_all

lemma T_State_on_list [simp]: "T (State_on_list s cs n h ! q) = T (h ! q)"
  by (induction cs arbitrary: h) simp_all

lemma d_State_on_list [simp]: "d (State_on_list s cs n h ! q) = d (h ! q)"
  by (induction cs arbitrary: h) simp_all

lemma jmap_State_on_list:
  "jmap (State_on_list s cs n h ! q) x =
     (if q = s \<and> s < length h \<and> x \<in> set cs \<and> jmap (h ! s) x = None then Some n
      else jmap (h ! q) x)"
  by (induction cs arbitrary: h) (auto simp: jmap_State_on)

subsection \<open>Invariants of the edges\<close>

definition edges_ok ::
  "(token_class option \<Rightarrow> nat \<Rightarrow> char \<Rightarrow> token_class option \<Rightarrow> nat \<Rightarrow> bool) \<Rightarrow> heap \<Rightarrow> bool" where
  "edges_ok P h \<longleftrightarrow>
     (\<forall>p<length h. \<forall>c q. jmap (h ! p) c = Some q \<longrightarrow>
        q < length h \<and> P (T (h ! p)) p c (T (h ! q)) q)"

lemma edges_ok_makeState:
  "edges_ok P h \<Longrightarrow> edges_ok P (h @ [\<lparr>jmap = Map.empty, d = None, T = t\<rparr>])"
  unfolding edges_ok_def by (auto simp: nth_append less_Suc_eq)

lemma edges_ok_State_on:
  assumes "edges_ok P h" "n < length h"
    and "s < length h \<Longrightarrow> jmap (h ! s) c = None \<Longrightarrow> P (T (h ! s)) s c (T (h ! n)) n"
  shows "edges_ok P (State_on s c n h)"
  using assms unfolding edges_ok_def by (auto simp: jmap_State_on split: if_splits)

lemma edges_ok_State_on_list:
  assumes "edges_ok P h" "n < length h"
    and "\<And>c. c \<in> set cs \<Longrightarrow> s < length h \<Longrightarrow> jmap (h ! s) c = None
           \<Longrightarrow> P (T (h ! s)) s c (T (h ! n)) n"
  shows "edges_ok P (State_on_list s cs n h)"
  using assms unfolding edges_ok_def by (auto simp: jmap_State_on_list split: if_splits)

lemma steps_simps [simp]: "steps [] h = h" "steps (f # fs) h = steps fs (f h)"
  by (simp_all add: steps_def)

definition ext :: "heap \<Rightarrow> heap \<Rightarrow> bool" where
  "ext h h' \<longleftrightarrow>
     length h \<le> length h' \<and>
     (\<forall>q<length h. T (h' ! q) = T (h ! q) \<and>
        (\<forall>c n. jmap (h ! q) c = Some n \<longrightarrow> jmap (h' ! q) c = Some n))"

lemma ext_refl [simp]: "ext h h"
  by (simp add: ext_def)

lemma ext_trans: "ext h1 h2 \<Longrightarrow> ext h2 h3 \<Longrightarrow> ext h1 h3"
  unfolding ext_def by force

lemma ext_makeState: "ext h (h @ [x])"
  by (simp add: ext_def nth_append)

lemma ext_State_on: "ext h (State_on s c n h)"
  by (auto simp: ext_def jmap_State_on)

lemma ext_State_on_list: "ext h (State_on_list s cs n h)"
  by (auto simp: ext_def jmap_State_on_list)

lemma ext_stateify: "ext h (snd (stateify w s e dt h))"
proof (induction w arbitrary: s h)
  case Nil
  show ?case by simp
next
  case (Cons c cs)
  show ?case
  proof (cases "State_next h s c")
    case (Some s')
    with Cons.IH[of h s'] show ?thesis by simp
  next
    case None
    let ?h1 = "h @ [\<lparr>jmap = Map.empty, d = None, T = Some (if cs = [] then e else dt)\<rparr>]"
    have "ext h (State_on s c (length h) ?h1)"
      by (rule ext_trans[OF ext_makeState ext_State_on])
    from ext_trans[OF this Cons.IH] None show ?thesis
      by (simp add: split_def makeState_def)
  qed
qed

text \<open>The new states of a literal: their references, their tags, no default.\<close>

lemma stateify_new:
  "fst (stateify w s e dt h) = [length h..<length (snd (stateify w s e dt h))]
   \<and> (\<forall>q. length h \<le> q \<and> q < length (snd (stateify w s e dt h)) \<longrightarrow>
        (T (snd (stateify w s e dt h) ! q) = Some e \<or> T (snd (stateify w s e dt h) ! q) = Some dt)
        \<and> d (snd (stateify w s e dt h) ! q) = None)
   \<and> (\<forall>q<length h. d (snd (stateify w s e dt h) ! q) = d (h ! q))"
proof (induction w arbitrary: s h)
  case Nil
  show ?case by auto
next
  case (Cons c cs)
  show ?case
  proof (cases "State_next h s c")
    case (Some s')
    with Cons.IH[of s' h] show ?thesis by simp
  next
    case None
    let ?t = "if cs = [] then e else dt"
    let ?h1 = "h @ [\<lparr>jmap = Map.empty, d = None, T = Some ?t\<rparr>]"
    let ?h2 = "State_on s c (length h) ?h1"
    let ?r = "stateify cs (length h) e dt ?h2"
    have r: "stateify (c # cs) s e dt h = (length h # fst ?r, snd ?r)"
      using None by (simp add: split_def makeState_def)
    have e: "ext ?h2 (snd ?r)" by (rule ext_stateify)
    then have len: "Suc (length h) \<le> length (snd ?r)" by (simp add: ext_def)
    from e have Th: "T (snd ?r ! length h) = Some ?t"
      unfolding ext_def by simp
    have IH: "fst ?r = [Suc (length h)..<length (snd ?r)]"
      "\<And>q. Suc (length h) \<le> q \<Longrightarrow> q < length (snd ?r) \<Longrightarrow>
        (T (snd ?r ! q) = Some e \<or> T (snd ?r ! q) = Some dt) \<and> d (snd ?r ! q) = None"
      "\<And>q. q < Suc (length h) \<Longrightarrow> d (snd ?r ! q) = d (?h2 ! q)"
      using Cons.IH[of "length h" ?h2] by simp_all
    have 1: "fst (stateify (c # cs) s e dt h) = [length h..<length (snd (stateify (c # cs) s e dt h))]"
      unfolding r using IH(1) len by (simp add: upt_conv_Cons)
    have 2: "(T (snd ?r ! q) = Some e \<or> T (snd ?r ! q) = Some dt) \<and> d (snd ?r ! q) = None"
      if "length h \<le> q" "q < length (snd ?r)" for q
    proof (cases "q = length h")
      case True
      with Th IH(3)[of "length h"] show ?thesis by (auto split: if_splits)
    next
      case False
      with that IH(2)[of q] show ?thesis by simp
    qed
    have 3: "d (snd ?r ! q) = d (h ! q)" if "q < length h" for q
      using that IH(3)[of q] by (simp add: nth_append)
    show ?thesis unfolding r using 1[unfolded r] 2 3 by simp
  qed
qed

lemma length_stateify: "length h \<le> length (snd (stateify w s e dt h))"
  using ext_stateify[of h w s e dt] by (simp add: ext_def)

lemma T_stateify_old [simp]: "q < length h \<Longrightarrow> T (snd (stateify w s e dt h) ! q) = T (h ! q)"
  using ext_stateify[of h w s e dt] by (simp add: ext_def)

lemma upt_append_upt: "i \<le> j \<Longrightarrow> j \<le> k \<Longrightarrow> [i..<j] @ [j..<k] = [i..<k]"
  using upt_add_eq_append[of i j "k - j"] by simp

text \<open>The loop over the top-level domains.\<close>

lemma tld_states_new:
  "ext h (snd (tld_states tlds (ds, h)))
   \<and> fst (tld_states tlds (ds, h)) = ds @ [length h..<length (snd (tld_states tlds (ds, h)))]
   \<and> (\<forall>q. length h \<le> q \<and> q < length (snd (tld_states tlds (ds, h))) \<longrightarrow>
        (T (snd (tld_states tlds (ds, h)) ! q) = Some T_TLD
         \<or> T (snd (tld_states tlds (ds, h)) ! q) = Some T_DOMAIN)
        \<and> d (snd (tld_states tlds (ds, h)) ! q) = None)
   \<and> (\<forall>q<length h. d (snd (tld_states tlds (ds, h)) ! q) = d (h ! q))"
proof (induction tlds arbitrary: ds h)
  case Nil
  show ?case by auto
next
  case (Cons w ws)
  let ?r = "stateify w S_START T_TLD T_DOMAIN h"
  let ?k = "tld_states ws (ds @ fst ?r, snd ?r)"
  have k: "tld_states (w # ws) (ds, h) = ?k" by (simp add: split_def)
  note IH = Cons.IH[of "snd ?r" "ds @ fst ?r"]
  note N = stateify_new[of w S_START T_TLD T_DOMAIN h]
  have l1: "length h \<le> length (snd ?r)" by (rule length_stateify)
  from IH have l2: "length (snd ?r) \<le> length (snd ?k)" by (simp add: ext_def)
  have 1: "ext h (snd ?k)" using ext_trans[OF ext_stateify] IH by blast
  have 2: "fst ?k = ds @ [length h..<length (snd ?k)]"
    using IH N l1 l2 by (simp add: upt_append_upt)
  have 3: "(T (snd ?k ! q) = Some T_TLD \<or> T (snd ?k ! q) = Some T_DOMAIN) \<and> d (snd ?k ! q) = None"
    if "length h \<le> q" "q < length (snd ?k)" for q
  proof (cases "q < length (snd ?r)")
    case True
    with IH have "T (snd ?k ! q) = T (snd ?r ! q)" "d (snd ?k ! q) = d (snd ?r ! q)"
      by (simp_all add: ext_def)
    with N that(1) True show ?thesis by simp
  next
    case False
    with IH that(2) show ?thesis by simp
  qed
  have 4: "d (snd ?k ! q) = d (h ! q)" if "q < length h" for q
    using that IH N l1 by simp
  show ?case unfolding k using 1 2 3 4 by blast
qed

section \<open>The states of the symbols\<close>

lemma list_update_Cons_numeral:
  "(x # xs)[numeral v := y] = x # xs[numeral v - 1 := y]"
  by (simp add: numeral_eq_Suc)

definition base_start :: "char \<rightharpoonup> nat" where
  "base_start = [CHR ''@'' \<mapsto> 5, CHR ''.'' \<mapsto> 6, CHR ''+'' \<mapsto> 7, CHR ''#'' \<mapsto> 8, CHR ''?'' \<mapsto> 9,
     CHR ''/'' \<mapsto> 10, CHR '':'' \<mapsto> 11, CHR ''{'' \<mapsto> 12, CHR ''['' \<mapsto> 13, CHR ''('' \<mapsto> 14,
     CHR ''}'' \<mapsto> 15, CHR '']'' \<mapsto> 16, CHR '')'' \<mapsto> 17,
     CHR '','' \<mapsto> 18, CHR '';'' \<mapsto> 18, CHR ''!'' \<mapsto> 18, CHR 0x22 \<mapsto> 18,
     CHR 0x0A \<mapsto> 19,
     CHR '' '' \<mapsto> 4, CHR 0x0C \<mapsto> 4, CHR 0x0D \<mapsto> 4, CHR 0x09 \<mapsto> 4, CHR 0x0B \<mapsto> 4]"

definition base_ws :: "char \<rightharpoonup> nat" where
  "base_ws = [CHR '' '' \<mapsto> 4, CHR 0x0C \<mapsto> 4, CHR 0x0D \<mapsto> 4, CHR 0x09 \<mapsto> 4, CHR 0x0B \<mapsto> 4]"

definition base :: heap where
  "base =
     [\<lparr>jmap = base_start, d = None, T = None\<rparr>,
      \<lparr>jmap = Map.empty, d = None, T = Some T_NUM\<rparr>,
      \<lparr>jmap = Map.empty, d = None, T = Some T_DOMAIN\<rparr>,
      \<lparr>jmap = Map.empty, d = None, T = None\<rparr>,
      \<lparr>jmap = base_ws, d = None, T = Some T_WS\<rparr>,
      \<lparr>jmap = Map.empty, d = None, T = Some T_AT\<rparr>,
      \<lparr>jmap = Map.empty, d = None, T = Some T_DOT\<rparr>,
      \<lparr>jmap = Map.empty, d = None, T = Some T_PLUS\<rparr>,
      \<lparr>jmap = Map.empty, d = None, T = Some T_POUND\<rparr>,
      \<lparr>jmap = Map.empty, d = None, T = Some T_QUERY\<rparr>,
      \<lparr>jmap = Map.empty, d = None, T = Some T_SLASH\<rparr>,
      \<lparr>jmap = Map.empty, d = None, T = Some T_COLON\<rparr>,
      \<lparr>jmap = Map.empty, d = None, T = Some T_OPENBRACE\<rparr>,
      \<lparr>jmap = Map.empty, d = None, T = Some T_OPENBRACKET\<rparr>,
      \<lparr>jmap = Map.empty, d = None, T = Some T_OPENPAREN\<rparr>,
      \<lparr>jmap = Map.empty, d = None, T = Some T_CLOSEBRACE\<rparr>,
      \<lparr>jmap = Map.empty, d = None, T = Some T_CLOSEBRACKET\<rparr>,
      \<lparr>jmap = Map.empty, d = None, T = Some T_CLOSEPAREN\<rparr>,
      \<lparr>jmap = Map.empty, d = None, T = Some T_PUNCTUATION\<rparr>,
      \<lparr>jmap = Map.empty, d = None, T = Some T_NL\<rparr>]"

lemma symbol_states_base: "symbol_states frequent_states = base"
  by (simp add: frequent_states_def symbol_states_def on_new_def makeState_def State_on_def
      S_START_def S_WS_def WHITESPACE_def COLON_def base_def base_start_def base_ws_def
      eval_nat_numeral)

lemma length_base [simp]: "length base = 20"
  by (simp add: base_def)

lemma scannerE:
  assumes "scanner tlds = Inr h"
  obtains ds1 h1 fileS h2 ftpS h3 httpS h4 locS h6 where
    "tld_states tlds ([], base) = (ds1, h1)"
    "stateify ''file'' S_START T_DOMAIN T_DOMAIN h1 = (fileS, h2)"
    "stateify ''ftp'' S_START T_DOMAIN T_DOMAIN h2 = (ftpS, h3)"
    "stateify ''http'' S_START T_DOMAIN T_DOMAIN h3 = (httpS, h4)"
    "fileS \<noteq> []" "ftpS \<noteq> []" "httpS \<noteq> []"
    "stateify ''localhost'' S_START T_LOCALHOST T_DOMAIN
       (protocol_jumps (last fileS) (last ftpS) (last httpS) (length h4) (Suc (length h4))
          (h4 @ [\<lparr>jmap = Map.empty, d = None, T = Some T_DOMAIN\<rparr>,
                 \<lparr>jmap = Map.empty, d = None, T = Some T_PROTOCOL\<rparr>])) = (locS, h6)"
    "h = default_transition
           (everything_else (ds1 @ fileS @ ftpS @ httpS @ [length h4] @ locS) h6)"
proof -
  obtain ds1 h1 where 1: "tld_states tlds ([], base) = (ds1, h1)" by force
  obtain fileS h2 where 2: "stateify ''file'' S_START T_DOMAIN T_DOMAIN h1 = (fileS, h2)" by force
  obtain ftpS h3 where 3: "stateify ''ftp'' S_START T_DOMAIN T_DOMAIN h2 = (ftpS, h3)" by force
  obtain httpS h4 where 4: "stateify ''http'' S_START T_DOMAIN T_DOMAIN h3 = (httpS, h4)" by force
  obtain locS h6 where 5: "stateify ''localhost'' S_START T_LOCALHOST T_DOMAIN
       (protocol_jumps (last fileS) (last ftpS) (last httpS) (length h4) (Suc (length h4))
          (h4 @ [\<lparr>jmap = Map.empty, d = None, T = Some T_DOMAIN\<rparr>,
                 \<lparr>jmap = Map.empty, d = None, T = Some T_PROTOCOL\<rparr>])) = (locS, h6)" by force
  from assms have "fileS \<noteq> [] \<and> ftpS \<noteq> [] \<and> httpS \<noteq> [] \<and>
      h = default_transition
           (everything_else (ds1 @ fileS @ ftpS @ httpS @ [length h4] @ locS) h6)"
    unfolding scanner_def protocol_states_def symbol_states_base 1 prod.case 2 3 4
    by (simp add: makeState_def pop_def 5 split: if_splits del: stateify.simps)
  with that[OF 1 2 3 4 _ _ _ 5] show thesis by blast
qed

section \<open>Invariants of the construction\<close>

declare stateify.simps [simp del]

definition dom_tag :: "token_class option \<Rightarrow> bool" where
  "dom_tag t \<longleftrightarrow> t = Some T_DOMAIN \<or> t = Some T_TLD \<or> t = Some T_LOCALHOST \<or> t = Some T_NUM"

definition sym_tag :: "token_class option \<Rightarrow> bool" where
  "sym_tag t \<longleftrightarrow> t \<noteq> None \<and> \<not> dom_tag t \<and> t \<noteq> Some T_WS \<and> t \<noteq> Some T_PROTOCOL \<and> t \<noteq> Some T_SYM"

definition P_gen ::
  "bool \<Rightarrow> token_class option \<Rightarrow> nat \<Rightarrow> char \<Rightarrow> token_class option \<Rightarrow> nat \<Rightarrow> bool" where
  "P_gen b tp p c tq q \<longleftrightarrow>
     q \<noteq> 0
     \<and> (tq = None \<longrightarrow> c = CHR ''-'' \<and> p \<noteq> 0)
     \<and> (tq = Some T_PROTOCOL \<longrightarrow> b \<and> c = COLON)
     \<and> tp \<noteq> Some T_PROTOCOL"

definition P_aln ::
  "token_class option \<Rightarrow> nat \<Rightarrow> char \<Rightarrow> token_class option \<Rightarrow> nat \<Rightarrow> bool" where
  "P_aln tp p c tq q \<longleftrightarrow>
          (c = CHR ''-'' \<longrightarrow> tq = None)
        \<and> (c \<in> set WHITESPACE \<longrightarrow> q = 4 \<and> (p = 0 \<or> p = 4))
        \<and> (c = CHR 0x0A \<longrightarrow> q = 19 \<and> p = 0)
        \<and> (q = 4 \<longrightarrow> c \<in> set WHITESPACE)
        \<and> (q = 19 \<longrightarrow> c = CHR 0x0A)
        \<and> (tp = Some T_WS \<longrightarrow> c \<in> set WHITESPACE)
        \<and> \<not> sym_tag tp
        \<and> (c \<in> set ALPHANUM \<longrightarrow> dom_tag tq)
        \<and> (dom_tag tp \<or> (tp = None \<and> p \<noteq> 0) \<longrightarrow> c \<in> set ALPHANUM \<or> c = CHR ''-'' \<or> c = COLON)
        \<and> (p \<noteq> 0 \<and> c = COLON \<longrightarrow> tq = Some T_PROTOCOL)
        \<and> (tq = Some T_NUM \<longrightarrow> c \<in> set NUM)
        \<and> (tq = Some T_LOCALHOST \<longrightarrow> c = CHR ''t'')
        \<and> (p = 0 \<and> c \<notin> set ALPHANUM \<longrightarrow> base_start c = Some q)"

definition P_pre :: "nat \<Rightarrow> char \<Rightarrow> nat \<Rightarrow> bool" where
  "P_pre p c q \<longleftrightarrow> (p = 0 \<or> p = 4 \<or> 20 \<le> p) \<and> (c \<in> set ALPHANUM \<longrightarrow> 20 \<le> q)"

definition P_all ::
  "bool \<Rightarrow> bool \<Rightarrow> bool \<Rightarrow> token_class option \<Rightarrow> nat \<Rightarrow> char \<Rightarrow> token_class option \<Rightarrow> nat \<Rightarrow> bool" where
  "P_all A b f tp p c tq q \<longleftrightarrow>
     P_gen b tp p c tq q \<and> (A \<longrightarrow> P_aln tp p c tq q \<and> (\<not> f \<longrightarrow> P_pre p c q))"

definition R_src :: "bool \<Rightarrow> token_class option \<Rightarrow> nat \<Rightarrow> bool" where
  "R_src A tp p \<longleftrightarrow>
     tp \<noteq> Some T_PROTOCOL \<and> (A \<longrightarrow> (p = 0 \<and> tp = None) \<or> (dom_tag tp \<and> 20 \<le> p))"

lemma char_classes [simp]:
  "CHR ''-'' \<notin> set ALPHANUM" "COLON \<notin> set ALPHANUM" "CHR 0x0A \<notin> set ALPHANUM"
  "COLON \<noteq> CHR ''-''" "COLON \<notin> set WHITESPACE" "CHR ''-'' \<notin> set WHITESPACE"
  "CHR 0x0A \<notin> set WHITESPACE" "CHR 0x0A \<noteq> COLON" "CHR 0x0A \<noteq> CHR ''-''"
  "CHR ''-'' \<notin> set NUM" "COLON \<notin> set NUM"
  by (simp_all add: ALPHANUM_def COLON_def WHITESPACE_def NUM_def)

lemma NUM_ALPHANUM: "c \<in> set NUM \<Longrightarrow> c \<in> set ALPHANUM"
  by (auto simp: NUM_def ALPHANUM_def)

lemma ALPHANUM_not_ws: "c \<in> set ALPHANUM \<Longrightarrow> c \<notin> set WHITESPACE"
  by (auto simp: WHITESPACE_def ALPHANUM_def)

lemma ALPHANUM_neq [simp]:
  "c \<in> set ALPHANUM \<Longrightarrow> c \<noteq> CHR ''-''" "c \<in> set ALPHANUM \<Longrightarrow> c \<noteq> COLON"
  "c \<in> set ALPHANUM \<Longrightarrow> c \<noteq> CHR 0x0A"
  by auto

lemma base_cases:
  assumes "p < 20" "jmap (base ! p) c = Some q"
  shows "(p = 0 \<and> base_start c = Some q) \<or> (p = 4 \<and> base_ws c = Some q)"
proof -
  from assms(1) consider "p = 0" | "p = 1" | "p = 2" | "p = 3" | "p = 4" | "p = 5" | "p = 6"
    | "p = 7" | "p = 8" | "p = 9" | "p = 10" | "p = 11" | "p = 12" | "p = 13" | "p = 14"
    | "p = 15" | "p = 16" | "p = 17" | "p = 18" | "p = 19"
    by atomize_elim arith
  then show ?thesis using assms(2) by cases (simp_all add: base_def)
qed

lemma base_tags:
  "T (base ! 0) = None" "T (base ! 1) = Some T_NUM" "T (base ! 2) = Some T_DOMAIN"
  "T (base ! 3) = None" "T (base ! 4) = Some T_WS" "T (base ! 5) = Some T_AT"
  "T (base ! 6) = Some T_DOT" "T (base ! 7) = Some T_PLUS" "T (base ! 8) = Some T_POUND"
  "T (base ! 9) = Some T_QUERY" "T (base ! 10) = Some T_SLASH" "T (base ! 11) = Some T_COLON"
  "T (base ! 12) = Some T_OPENBRACE" "T (base ! 13) = Some T_OPENBRACKET"
  "T (base ! 14) = Some T_OPENPAREN" "T (base ! 15) = Some T_CLOSEBRACE"
  "T (base ! 16) = Some T_CLOSEBRACKET" "T (base ! 17) = Some T_CLOSEPAREN"
  "T (base ! 18) = Some T_PUNCTUATION" "T (base ! 19) = Some T_NL"
  "T (base ! Suc 0) = Some T_NUM"
  by (simp_all add: base_def)

lemma base_nod: "\<forall>p<length base. d (base ! p) = None"
proof (intro allI impI)
  fix p assume "p < length base"
  then consider "p = 0" | "p = 1" | "p = 2" | "p = 3" | "p = 4" | "p = 5" | "p = 6"
    | "p = 7" | "p = 8" | "p = 9" | "p = 10" | "p = 11" | "p = 12" | "p = 13" | "p = 14"
    | "p = 15" | "p = 16" | "p = 17" | "p = 18" | "p = 19"
    by atomize_elim (simp, arith)
  then show "d (base ! p) = None" by cases (simp_all add: base_def)
qed

definition base_start_list :: "(char \<times> nat) list" where
  "base_start_list = [(CHR ''@'', 5), (CHR ''.'', 6), (CHR ''+'', 7), (CHR ''#'', 8), (CHR ''?'', 9),
     (CHR ''/'', 10), (CHR '':'', 11), (CHR ''{'', 12), (CHR ''['', 13), (CHR ''('', 14),
     (CHR ''}'', 15), (CHR '']'', 16), (CHR '')'', 17),
     (CHR '','', 18), (CHR '';'', 18), (CHR ''!'', 18), (CHR 0x22, 18),
     (CHR 0x0A, 19),
     (CHR '' '', 4), (CHR 0x0C, 4), (CHR 0x0D, 4), (CHR 0x09, 4), (CHR 0x0B, 4)]"

lemma base_start_SomeD: "base_start c = Some q \<Longrightarrow> (c, q) \<in> set base_start_list"
  by (simp add: base_start_def base_start_list_def split: if_splits)

lemma base_ws_SomeD: "base_ws c = Some q \<Longrightarrow> c \<in> set WHITESPACE \<and> q = 4"
  by (simp add: base_ws_def WHITESPACE_def split: if_splits)

lemma base_start_list_ok:
  "\<forall>(c, q) \<in> set base_start_list. q < 20 \<and> P_all A False False None 0 c (T (base ! q)) q"
  by (simp add: base_start_list_def base_tags P_all_def P_gen_def P_aln_def P_pre_def sym_tag_def dom_tag_def
          WHITESPACE_def ALPHANUM_def COLON_def base_start_def)

lemma WHITESPACE_props:
  "c \<in> set WHITESPACE \<Longrightarrow>
     c \<noteq> CHR ''-'' \<and> c \<noteq> CHR 0x0A \<and> c \<notin> set ALPHANUM \<and> c \<noteq> COLON \<and> c \<notin> set NUM"
  by (auto simp: WHITESPACE_def ALPHANUM_def COLON_def NUM_def)

lemma edges_ok_base: "edges_ok (P_all A False False) base"
  unfolding edges_ok_def
proof (intro allI impI)
  fix p c q assume "p < length base" "jmap (base ! p) c = Some q"
  then consider "p = 0" "base_start c = Some q" | "p = 4" "base_ws c = Some q"
    using base_cases[of p c q] by auto
  then show "q < length base \<and> P_all A False False (T (base ! p)) p c (T (base ! q)) q"
  proof cases
    case 1
    from base_start_SomeD[OF 1(2)] base_start_list_ok[of A] show ?thesis
      unfolding 1(1) by (auto simp: base_tags)
  next
    case 2
    from base_ws_SomeD[OF 2(2)] show ?thesis unfolding 2(1)
      by (auto simp: base_tags P_all_def P_gen_def P_aln_def P_pre_def sym_tag_def dom_tag_def dest: WHITESPACE_props)
  qed
qed



lemma edges_ok_stateify:
  assumes "edges_ok P h" "s < length h" "R (T (h ! s)) s"
    and closed: "\<forall>tp p c tq q. R tp p \<and> c \<in> set w \<and> P tp p c tq q \<longrightarrow> R tq q"
    and fresh: "\<forall>q\<ge>length h. R (Some e) q \<and> R (Some dt) q"
    and new: "\<forall>tp p q. R tp p \<and> length h \<le> q
                \<longrightarrow> (\<forall>c\<in>set (butlast w). P tp p c (Some dt) q) \<and> (w \<noteq> [] \<longrightarrow> P tp p (last w) (Some e) q)"
    and nod: "\<forall>p<length h. d (h ! p) = None"
  shows "edges_ok P (snd (stateify w s e dt h))"
  using assms
proof (induction w arbitrary: s h)
  case Nil
  then show ?case by (simp add: stateify.simps)
next
  case (Cons c cs)
  have c4: "\<forall>tp p c tq q. R tp p \<and> c \<in> set cs \<and> P tp p c tq q \<longrightarrow> R tq q"
    using Cons.prems(4) by (simp (no_asm_use)) blast
  have c6: "\<forall>tp p q. R tp p \<and> length h' \<le> q
                \<longrightarrow> (\<forall>c\<in>set (butlast cs). P tp p c (Some dt) q) \<and> (cs \<noteq> [] \<longrightarrow> P tp p (last cs) (Some e) q)"
    if "length h \<le> length h'" for h'
  proof (intro allI impI)
    fix tp p q assume a: "R tp p \<and> length h' \<le> q"
    with that have "R tp p \<and> length h \<le> q" by simp
    with Cons.prems(6) have
      "(\<forall>x\<in>set (butlast (c # cs)). P tp p x (Some dt) q) \<and> P tp p (last (c # cs)) (Some e) q"
      by blast
    then show "(\<forall>c\<in>set (butlast cs). P tp p c (Some dt) q) \<and> (cs \<noteq> [] \<longrightarrow> P tp p (last cs) (Some e) q)"
      by (cases "cs = []") auto
  qed
  show ?case
  proof (cases "State_next h s c")
    case (Some s')
    with Cons.prems(2,7) have j: "jmap (h ! s) c = Some s'"
      by (auto simp: State_next_def split: option.splits)
    with Cons.prems(1,2) have s': "s' < length h" "P (T (h ! s)) s c (T (h ! s')) s'"
      unfolding edges_ok_def by auto
    have "R (T (h ! s')) s'"
      using Cons.prems(3,4) s'(2) by (simp (no_asm_use)) blast
    then have "edges_ok P (snd (stateify cs s' e dt h))"
      using Cons.prems(1,5,7) s'(1) c4 c6[of h] by (intro Cons.IH) simp_all
    with Some show ?thesis by (simp add: stateify.simps)
  next
    case None
    let ?t = "if cs = [] then e else dt"
    let ?h1 = "h @ [\<lparr>jmap = Map.empty, d = None, T = Some ?t\<rparr>]"
    let ?h2 = "State_on s c (length h) ?h1"
    have 1: "edges_ok P ?h1" using Cons.prems(1) by (rule edges_ok_makeState)
    have Pn: "P (T (h ! s)) s c (Some ?t) (length h)"
      using Cons.prems(3,6) by (cases "cs = []") auto
    have 2: "edges_ok P ?h2"
    proof (rule edges_ok_State_on[OF 1])
      show "length h < length ?h1" by simp
      show "P (T (?h1 ! s)) s c (T (?h1 ! length h)) (length h)"
        using Cons.prems(2) Pn by (simp add: nth_append)
    qed
    have "edges_ok P (snd (stateify cs (length h) e dt ?h2))"
    proof (rule Cons.IH[OF 2])
      show "length h < length ?h2" by simp
      show "R (T (?h2 ! length h)) (length h)"
        using Cons.prems(5) by simp
      show "\<forall>p<length ?h2. d (?h2 ! p) = None"
        using Cons.prems(7) by (auto simp: nth_append less_Suc_eq)
    qed (use Cons.prems(5) c4 c6[of ?h2] in auto)
    with None show ?thesis by (simp add: split_def makeState_def stateify.simps)
  qed
qed

lemma R_src_closed:
  assumes "A \<longrightarrow> set w \<subseteq> set ALPHANUM" "b \<longrightarrow> COLON \<notin> set w"
  shows "\<forall>tp p c tq q. R_src A tp p \<and> c \<in> set w \<and> P_all A b False tp p c tq q \<longrightarrow> R_src A tq q"
proof (intro allI impI)
  fix tp p c tq q
  assume a: "R_src A tp p \<and> c \<in> set w \<and> P_all A b False tp p c tq q"
  then have c: "c \<in> set w" and P: "P_all A b False tp p c tq q" by auto
  from P c assms(2) have 1: "tq \<noteq> Some T_PROTOCOL" unfolding P_all_def P_gen_def by auto
  have 2: "dom_tag tq \<and> 20 \<le> q" if A
  proof -
    from that assms(1) c have "c \<in> set ALPHANUM" by auto
    with P that show ?thesis unfolding P_all_def P_aln_def P_pre_def by blast
  qed
  from 1 2 show "R_src A tq q" unfolding R_src_def by simp
qed

lemma P_all_new:
  assumes "R_src A tp p" "20 \<le> q" "A \<longrightarrow> c \<in> set ALPHANUM"
    and "t = T_DOMAIN \<or> t = T_TLD \<or> (t = T_LOCALHOST \<and> c = CHR ''t'')"
  shows "P_all A b f tp p c (Some t) q"
proof -
  have g: "P_gen b tp p c (Some t) q"
    using assms(1,2,4) unfolding P_gen_def R_src_def by auto
  have "P_aln tp p c (Some t) q \<and> P_pre p c q" if A
  proof -
    from that assms(3) have c: "c \<in> set ALPHANUM" by simp
    then have c': "c \<notin> set WHITESPACE" "c \<noteq> CHR ''-''" "c \<noteq> COLON" "c \<noteq> CHR 0x0A"
      using ALPHANUM_not_ws by simp_all
    from that assms(1) have t: "\<not> sym_tag tp" "tp \<noteq> Some T_WS" "p = 0 \<or> 20 \<le> p"
      by (auto simp: R_src_def sym_tag_def dom_tag_def)
    from assms(2) have q: "q \<noteq> 4" "q \<noteq> 19" by auto
    from assms(4) have dt: "dom_tag (Some t)" "t \<noteq> T_NUM" "t = T_LOCALHOST \<longrightarrow> c = CHR ''t''"
      by (auto simp: dom_tag_def)
    have 1: "P_aln tp p c (Some t) q" unfolding P_aln_def using c c' t(1,2) q dt by simp
    have 2: "P_pre p c q" unfolding P_pre_def using t(3) assms(2) by blast
    from 1 2 show ?thesis ..
  qed
  with g show ?thesis by (simp add: P_all_def)
qed

lemma stateify_pass:
  assumes "edges_ok (P_all A b False) h" "\<forall>p<length h. d (h ! p) = None" "20 \<le> length h"
    "T (h ! 0) = None" "A \<longrightarrow> set w \<subseteq> set ALPHANUM" "b \<longrightarrow> COLON \<notin> set w"
    "e = T_DOMAIN \<or> e = T_TLD \<or> (e = T_LOCALHOST \<and> w \<noteq> [] \<and> last w = CHR ''t'')"
  shows "edges_ok (P_all A b False) (snd (stateify w S_START e T_DOMAIN h))"
proof (rule edges_ok_stateify[where R = "R_src A"])
  show "edges_ok (P_all A b False) h" by fact
  show "S_START < length h" using assms(3) unfolding S_START_def by linarith
  show "R_src A (T (h ! S_START)) S_START" using assms(4) by (simp add: S_START_def R_src_def)
  show "\<forall>tp p c tq q. R_src A tp p \<and> c \<in> set w \<and> P_all A b False tp p c tq q \<longrightarrow> R_src A tq q"
    using assms(5,6) by (rule R_src_closed)
  show "\<forall>q\<ge>length h. R_src A (Some e) q \<and> R_src A (Some T_DOMAIN) q"
    using assms(3,7) by (auto simp: R_src_def dom_tag_def)
  show "\<forall>p<length h. d (h ! p) = None" by fact
  show "\<forall>tp p q. R_src A tp p \<and> length h \<le> q \<longrightarrow>
       (\<forall>c\<in>set (butlast w). P_all A b False tp p c (Some T_DOMAIN) q) \<and>
       (w \<noteq> [] \<longrightarrow> P_all A b False tp p (last w) (Some e) q)"
  proof (intro allI impI conjI ballI)
    fix tp p q c assume a: "R_src A tp p \<and> length h \<le> q" and c: "c \<in> set (butlast w)"
    from c have "c \<in> set w" by (rule in_set_butlastD)
    with a assms(3,5) show "P_all A b False tp p c (Some T_DOMAIN) q"
      by (intro P_all_new) auto
  next
    fix tp p q assume a: "R_src A tp p \<and> length h \<le> q" and w: "w \<noteq> []"
    from w have "last w \<in> set w" by simp
    with a assms(3,5,7) show "P_all A b False tp p (last w) (Some e) q"
      by (intro P_all_new) auto
  qed
qed



definition mid :: "bool \<Rightarrow> bool \<Rightarrow> bool \<Rightarrow> heap \<Rightarrow> bool" where
  "mid A b f h \<longleftrightarrow> edges_ok (P_all A b f) h \<and> (\<forall>p<length h. d (h ! p) = None) \<and> ext base h"

lemma mid_length: "mid A b f h \<Longrightarrow> 20 \<le> length h"
  by (simp add: mid_def ext_def)

lemma mid_T: "mid A b f h \<Longrightarrow> q < 20 \<Longrightarrow> T (h ! q) = T (base ! q)"
  by (simp add: mid_def ext_def)

lemma mid_base: "mid A False False base"
  using edges_ok_base base_nod by (simp add: mid_def)

lemma mid_ext:
  assumes "mid A b f h" "ext h h'" "edges_ok (P_all A b f) h'" "\<forall>p<length h'. d (h' ! p) = None"
  shows "mid A b f h'"
  using assms ext_trans[of base h h'] by (simp add: mid_def)

lemma mid_makeState:
  assumes "mid A b f h"
  shows "mid A b f (h @ [\<lparr>jmap = Map.empty, d = None, T = t\<rparr>])"
proof (rule mid_ext[OF assms ext_makeState])
  show "edges_ok (P_all A b f) (h @ [\<lparr>jmap = Map.empty, d = None, T = t\<rparr>])"
    using assms unfolding mid_def by (intro edges_ok_makeState) simp
  show "\<forall>p<length (h @ [\<lparr>jmap = Map.empty, d = None, T = t\<rparr>]).
          d ((h @ [\<lparr>jmap = Map.empty, d = None, T = t\<rparr>]) ! p) = None"
    using assms unfolding mid_def by (simp add: nth_append)
qed

lemma mid_State_on:
  assumes "mid A b f h" "n < length h"
    and "s < length h \<Longrightarrow> jmap (h ! s) c = None \<Longrightarrow> P_all A b f (T (h ! s)) s c (T (h ! n)) n"
  shows "mid A b f (State_on s c n h)"
proof (rule mid_ext[OF assms(1) ext_State_on])
  show "edges_ok (P_all A b f) (State_on s c n h)"
    using assms unfolding mid_def by (intro edges_ok_State_on) simp_all
  show "\<forall>p<length (State_on s c n h). d (State_on s c n h ! p) = None"
    using assms(1) unfolding mid_def by simp
qed

lemma mid_State_on_list:
  assumes "mid A b f h" "n < length h"
    and "\<And>c. c \<in> set cs \<Longrightarrow> s < length h \<Longrightarrow> jmap (h ! s) c = None \<Longrightarrow>
           P_all A b f (T (h ! s)) s c (T (h ! n)) n"
  shows "mid A b f (State_on_list s cs n h)"
proof (rule mid_ext[OF assms(1) ext_State_on_list])
  show "edges_ok (P_all A b f) (State_on_list s cs n h)"
    using assms unfolding mid_def by (intro edges_ok_State_on_list) simp_all
  show "\<forall>p<length (State_on_list s cs n h). d (State_on_list s cs n h ! p) = None"
    using assms(1) unfolding mid_def by simp
qed

lemma P_all_weaken:
  assumes "P_all A b f tp p c tq q" "b \<longrightarrow> b'" "f \<longrightarrow> f'"
  shows "P_all A b' f' tp p c tq q"
proof -
  from assms(1) have g: "P_gen b tp p c tq q" and a: "A \<longrightarrow> P_aln tp p c tq q"
    and p: "A \<longrightarrow> \<not> f \<longrightarrow> P_pre p c q"
    unfolding P_all_def by blast+
  from g assms(2) have "P_gen b' tp p c tq q" unfolding P_gen_def by blast
  moreover from p assms(3) have "A \<longrightarrow> \<not> f' \<longrightarrow> P_pre p c q" by blast
  ultimately show ?thesis using a unfolding P_all_def by blast
qed

lemma mid_weaken:
  assumes "mid A b f h" "b \<longrightarrow> b'" "f \<longrightarrow> f'"
  shows "mid A b' f' h"
proof -
  have "edges_ok (P_all A b' f') h"
    unfolding edges_ok_def
  proof (intro allI impI)
    fix p c q assume "p < length h" "jmap (h ! p) c = Some q"
    with assms(1) have "q < length h \<and> P_all A b f (T (h ! p)) p c (T (h ! q)) q"
      unfolding mid_def edges_ok_def by blast
    then show "q < length h \<and> P_all A b' f' (T (h ! p)) p c (T (h ! q)) q"
      using P_all_weaken[OF _ assms(2,3)] by blast
  qed
  with assms(1) show ?thesis by (simp add: mid_def)
qed

lemma mid_stateify:
  assumes "mid A b False h" "A \<longrightarrow> set w \<subseteq> set ALPHANUM" "b \<longrightarrow> COLON \<notin> set w"
    "e = T_DOMAIN \<or> e = T_TLD \<or> (e = T_LOCALHOST \<and> w \<noteq> [] \<and> last w = CHR ''t'')"
  shows "mid A b False (snd (stateify w S_START e T_DOMAIN h))"
proof (rule mid_ext[OF assms(1) ext_stateify])
  have T0: "T (h ! 0) = None" using mid_T[OF assms(1), of 0] by (simp add: base_tags)
  show "edges_ok (P_all A b False) (snd (stateify w S_START e T_DOMAIN h))"
    using assms mid_length[OF assms(1)] T0 by (intro stateify_pass) (auto simp: mid_def)
  show "\<forall>p<length (snd (stateify w S_START e T_DOMAIN h)).
       d (snd (stateify w S_START e T_DOMAIN h) ! p) = None"
  proof (intro allI impI)
    fix p assume p: "p < length (snd (stateify w S_START e T_DOMAIN h))"
    show "d (snd (stateify w S_START e T_DOMAIN h) ! p) = None"
    proof (cases "p < length h")
      case True
      with stateify_new[of w S_START e T_DOMAIN h] assms(1) show ?thesis by (simp add: mid_def)
    next
      case False
      with stateify_new[of w S_START e T_DOMAIN h] p show ?thesis by simp
    qed
  qed
qed

lemma mid_tld_states:
  assumes "mid A False False h" "A \<longrightarrow> (\<forall>w\<in>set tlds. set w \<subseteq> set ALPHANUM)"
  shows "mid A False False (snd (tld_states tlds (ds, h)))"
  using assms
proof (induction tlds arbitrary: ds h)
  case Nil
  then show ?case by simp
next
  case (Cons w ws)
  have "mid A False False (snd (stateify w S_START T_TLD T_DOMAIN h))"
    using Cons.prems by (intro mid_stateify) auto
  then have "mid A False False (snd (tld_states ws (ds @ fst (stateify w S_START T_TLD T_DOMAIN h),
       snd (stateify w S_START T_TLD T_DOMAIN h))))"
    using Cons.prems(2) by (intro Cons.IH) auto
  then show ?case by (simp add: split_def)
qed

text \<open>Edges of the kinds that the construction adds.\<close>

lemma dom_tag_simps [simp]:
  "dom_tag (Some T_DOMAIN)" "dom_tag (Some T_TLD)" "dom_tag (Some T_LOCALHOST)" "dom_tag (Some T_NUM)"
  "\<not> dom_tag None" "\<not> dom_tag (Some T_PROTOCOL)" "\<not> dom_tag (Some T_WS)"
  "\<not> dom_tag (Some T_SYM)" "\<not> dom_tag (Some T_NL)"
  by (simp_all add: dom_tag_def)

lemma sym_tag_simps [simp]:
  "\<not> sym_tag None" "dom_tag t \<Longrightarrow> \<not> sym_tag t"
  by (simp_all add: sym_tag_def)

lemma dom_tag_neq [simp]:
  "dom_tag t \<Longrightarrow> t \<noteq> Some T_PROTOCOL" "dom_tag t \<Longrightarrow> t \<noteq> Some T_WS" "dom_tag t \<Longrightarrow> t \<noteq> None"
  by (auto simp: dom_tag_def)

lemma P_all_colon:
  assumes "dom_tag tp" "20 \<le> p" "20 \<le> q"
  shows "P_all A True f tp p COLON (Some T_PROTOCOL) q"
proof -
  from assms(1) have t: "tp \<noteq> Some T_PROTOCOL" "tp \<noteq> Some T_WS" "\<not> sym_tag tp" by auto
  from assms(2,3) have q: "q \<noteq> 0" "q \<noteq> 4" "q \<noteq> 19" "p \<noteq> 0" by auto
  show ?thesis unfolding P_all_def P_gen_def P_aln_def P_pre_def using t q assms(2)
    by (simp add: COLON_def WHITESPACE_def ALPHANUM_def)
qed

lemma P_all_domain:
  assumes "dom_tag tp \<or> tp = None" "c \<in> set ALPHANUM" "q = 2 \<or> 20 \<le> q"
    "f \<or> (20 \<le> p \<and> 20 \<le> q)"
  shows "P_all A b f tp p c (Some T_DOMAIN) q"
proof -
  have c: "c \<notin> set WHITESPACE" "c \<noteq> CHR ''-''" "c \<noteq> COLON" "c \<noteq> CHR 0x0A"
    using assms(2) ALPHANUM_not_ws by simp_all
  from assms(3) have q: "q \<noteq> 0" "q \<noteq> 4" "q \<noteq> 19" by auto
  from assms(1) have t: "tp \<noteq> Some T_PROTOCOL" "tp \<noteq> Some T_WS" "\<not> sym_tag tp" by auto
  show ?thesis unfolding P_all_def P_gen_def P_aln_def P_pre_def using c q t assms(2,4) by auto
qed

lemma P_all_hyphen:
  assumes "dom_tag tp \<or> tp = None" "p \<noteq> 0"
  shows "P_all A b True tp p (CHR ''-'') None 3"
proof -
  from assms(1) have t: "tp \<noteq> Some T_PROTOCOL" "tp \<noteq> Some T_WS" "\<not> sym_tag tp" by auto
  show ?thesis unfolding P_all_def P_gen_def P_aln_def P_pre_def using t assms(2)
    by (simp add: COLON_def WHITESPACE_def ALPHANUM_def)
qed

lemma P_all_num:
  assumes "tp = None \<or> tp = Some T_NUM" "c \<in> set NUM"
  shows "P_all A b True tp p c (Some T_NUM) (Suc 0)"
proof -
  have a: "c \<in> set ALPHANUM" using assms(2) by (rule NUM_ALPHANUM)
  then have c: "c \<notin> set WHITESPACE" "c \<noteq> CHR ''-''" "c \<noteq> COLON" "c \<noteq> CHR 0x0A"
    using ALPHANUM_not_ws by simp_all
  from assms(1) have t: "tp \<noteq> Some T_PROTOCOL" "tp \<noteq> Some T_WS" "\<not> sym_tag tp" by auto
  show ?thesis unfolding P_all_def P_gen_def P_aln_def P_pre_def using c t a assms(2) by simp
qed

lemma State_on_other: "q \<noteq> s \<Longrightarrow> State_on s c n h ! q = h ! q"
  by (simp add: State_on_def)

lemma State_on_list_other: "q \<noteq> s \<Longrightarrow> State_on_list s cs n h ! q = h ! q"
  by (induction cs arbitrary: h) (simp_all add: State_on_other)

lemma length_domain_jumps [simp]: "length (domain_jumps ds h) = length h"
  by (induction ds arbitrary: h) simp_all

lemma T_domain_jumps [simp]: "T (domain_jumps ds h ! q) = T (h ! q)"
  by (induction ds arbitrary: h) simp_all

lemma d_domain_jumps [simp]: "d (domain_jumps ds h ! q) = d (h ! q)"
  by (induction ds arbitrary: h) simp_all

lemma domain_jumps_other: "q \<notin> set ds \<Longrightarrow> domain_jumps ds h ! q = h ! q"
  by (induction ds arbitrary: h) (simp_all add: State_on_other State_on_list_other)

lemma ext_domain_jumps: "ext h (domain_jumps ds h)"
proof (induction ds arbitrary: h)
  case Nil
  show ?case by simp
next
  case (Cons s ds)
  have "ext h (State_on_list s ALPHANUM S_DOMAIN (State_on s (CHR ''-'') S_DOMAIN_HYPHEN h))"
    by (rule ext_trans[OF ext_State_on ext_State_on_list])
  from ext_trans[OF this Cons.IH] show ?case by simp
qed

text \<open>A character that a state maps stays mapped.\<close>

lemma ext_mapped: "ext h h' \<Longrightarrow> q < length h \<Longrightarrow> jmap (h ! q) c \<noteq> None \<Longrightarrow> jmap (h' ! q) c \<noteq> None"
  unfolding ext_def by fastforce

lemma mapped_State_on: "s < length h \<Longrightarrow> jmap (State_on s c n h ! s) c \<noteq> None"
  by (simp add: jmap_State_on)

lemma mapped_State_on_list:
  "s < length h \<Longrightarrow> c \<in> set cs \<Longrightarrow> jmap (State_on_list s cs n h ! s) c \<noteq> None"
  by (simp add: jmap_State_on_list)

definition complete :: "heap \<Rightarrow> nat \<Rightarrow> bool" where
  "complete h s \<longleftrightarrow> (\<forall>c\<in>set ALPHANUM. jmap (h ! s) c \<noteq> None) \<and> jmap (h ! s) (CHR ''-'') \<noteq> None"

lemma complete_ext: "ext h h' \<Longrightarrow> s < length h \<Longrightarrow> complete h s \<Longrightarrow> complete h' s"
  unfolding complete_def using ext_mapped by blast

lemma complete_jumps:
  assumes "s < length h"
  shows "complete (State_on_list s ALPHANUM n (State_on s (CHR ''-'') m h)) s"
proof -
  have "jmap (State_on s (CHR ''-'') m h ! s) (CHR ''-'') \<noteq> None"
    using assms by (rule mapped_State_on)
  then have "jmap (State_on_list s ALPHANUM n (State_on s (CHR ''-'') m h) ! s) (CHR ''-'') \<noteq> None"
    using assms by (intro ext_mapped[OF ext_State_on_list]) simp_all
  then show ?thesis
    unfolding complete_def using assms by (simp add: mapped_State_on_list)
qed

lemma complete_domain_jumps:
  "\<forall>s\<in>set ds. s < length h \<Longrightarrow> \<forall>s\<in>set ds. complete (domain_jumps ds h) s"
proof (induction ds arbitrary: h)
  case Nil
  show ?case by simp
next
  case (Cons s ds)
  let ?h = "State_on_list s ALPHANUM S_DOMAIN (State_on s (CHR ''-'') S_DOMAIN_HYPHEN h)"
  have 1: "complete ?h s" using Cons.prems by (intro complete_jumps) simp
  have "complete (domain_jumps ds ?h) s"
    using Cons.prems by (intro complete_ext[OF ext_domain_jumps _ 1]) simp
  moreover have "\<forall>s\<in>set ds. complete (domain_jumps ds ?h) s"
    using Cons.prems by (intro Cons.IH) simp
  ultimately show ?case by simp
qed

lemma mid_protocol_jumps:
  assumes m: "mid A True False h"
    and FILE: "20 \<le> FILE" "FILE < length h" "dom_tag (T (h ! FILE))"
    and FTP: "20 \<le> FTP" "FTP < length h" "dom_tag (T (h ! FTP))"
    and HTTP: "20 \<le> HTTP" "HTTP < length h" "dom_tag (T (h ! HTTP))"
    and S: "20 \<le> S" "S < length h" "T (h ! S) = Some T_DOMAIN"
    and F: "20 \<le> F" "F < length h" "T (h ! F) = Some T_PROTOCOL"
  shows "mid A True False (protocol_jumps FILE FTP HTTP S F h)"
proof -
  have s: "CHR ''s'' \<in> set ALPHANUM" by (simp add: ALPHANUM_def)
  let ?h1 = "State_on FTP (CHR ''s'') S h"
  let ?h2 = "State_on FTP COLON F ?h1"
  let ?h3 = "State_on HTTP (CHR ''s'') S ?h2"
  let ?h4 = "State_on HTTP COLON F ?h3"
  let ?h5 = "State_on FILE COLON F ?h4"
  let ?h6 = "State_on S COLON F ?h5"
  have 1: "mid A True False ?h1"
    using FTP S s by (intro mid_State_on[OF m]) (simp_all add: P_all_domain)
  have 2: "mid A True False ?h2"
    using FTP F by (intro mid_State_on[OF 1]) (simp_all add: P_all_colon)
  have 3: "mid A True False ?h3"
    using HTTP S s by (intro mid_State_on[OF 2]) (simp_all add: P_all_domain)
  have 4: "mid A True False ?h4"
    using HTTP F by (intro mid_State_on[OF 3]) (simp_all add: P_all_colon)
  have 5: "mid A True False ?h5"
    using FILE F by (intro mid_State_on[OF 4]) (simp_all add: P_all_colon)
  have 6: "mid A True False ?h6"
    using S F by (intro mid_State_on[OF 5]) (simp_all add: P_all_colon)
  then show ?thesis by (simp add: protocol_jumps_def)
qed

lemma mid_domain_jumps:
  assumes "mid A True True h" "\<forall>s\<in>set ds. 20 \<le> s \<and> s < length h \<and> dom_tag (T (h ! s))"
  shows "mid A True True (domain_jumps ds h)"
  using assms
proof (induction ds arbitrary: h)
  case Nil
  then show ?case by simp
next
  case (Cons s ds)
  from mid_length[OF Cons.prems(1)] have l: "3 < length h" "2 < length h" by auto
  from mid_T[OF Cons.prems(1)] have t: "T (h ! 3) = None" "T (h ! 2) = Some T_DOMAIN"
    by (simp_all add: base_tags)
  from Cons.prems(2) have s: "20 \<le> s" "s < length h" "dom_tag (T (h ! s))" by auto
  let ?h1 = "State_on s (CHR ''-'') S_DOMAIN_HYPHEN h"
  let ?h2 = "State_on_list s ALPHANUM S_DOMAIN ?h1"
  have 1: "mid A True True ?h1"
    using l t s unfolding S_DOMAIN_HYPHEN_def
    by (intro mid_State_on[OF Cons.prems(1)]) (simp_all add: P_all_hyphen)
  have 2: "mid A True True ?h2"
    using l t s unfolding S_DOMAIN_def
    by (intro mid_State_on_list[OF 1]) (simp_all add: P_all_domain)
  have "mid A True True (domain_jumps ds ?h2)"
    using Cons.prems(2) by (intro Cons.IH[OF 2]) simp
  then show ?case by simp
qed

lemma ext_State_on': "ext h h1 \<Longrightarrow> ext h (State_on s c n h1)"
  by (rule ext_trans[OF _ ext_State_on])

lemma ext_State_on_list': "ext h h1 \<Longrightarrow> ext h (State_on_list s cs n h1)"
  by (rule ext_trans[OF _ ext_State_on_list])

lemma ext_domain_jumps': "ext h h1 \<Longrightarrow> ext h (domain_jumps ds h1)"
  by (rule ext_trans[OF _ ext_domain_jumps])

lemmas ext_intros = ext_State_on' ext_State_on_list' ext_domain_jumps' ext_refl

lemma complete_State_on_list:
  "s < length h \<Longrightarrow> jmap (h ! s) (CHR ''-'') \<noteq> None \<Longrightarrow> complete (State_on_list s ALPHANUM n h) s"
  unfolding complete_def
  using ext_mapped[OF ext_State_on_list, of s h "CHR ''-''" s ALPHANUM n]
  by (simp add: mapped_State_on_list)

text \<open>The jumps of a state that has none before \<open>everything_else\<close>.\<close>

definition domain_fallback :: "char \<rightharpoonup> nat" where
  "domain_fallback c =
     (if c = CHR ''-'' then Some S_DOMAIN_HYPHEN else if c \<in> set ALPHANUM then Some S_DOMAIN else None)"

definition num_fallback :: "char \<rightharpoonup> nat" where
  "num_fallback c =
     (if c = CHR ''-'' then Some S_DOMAIN_HYPHEN else if c \<in> set NUM then Some S_NUM
      else if c \<in> set ALPHANUM then Some S_DOMAIN else None)"

lemma everything_else_facts:
  assumes m: "mid A True True h" and ds: "\<forall>s\<in>set ds. 20 \<le> s \<and> s < length h \<and> dom_tag (T (h ! s))"
  shows "mid A True True (everything_else ds h)"
    and "\<forall>s\<in>set ds. complete (everything_else ds h) s"
    and "complete (everything_else ds h) 1" "complete (everything_else ds h) 2"
      "complete (everything_else ds h) 3"
    and "\<forall>c. jmap (h ! 1) c = None \<Longrightarrow> jmap (everything_else ds h ! 1) = num_fallback"
    and "\<forall>c. jmap (h ! 2) c = None \<Longrightarrow> jmap (everything_else ds h ! 2) = domain_fallback"
    and "\<forall>c. jmap (h ! 3) c = None \<Longrightarrow> jmap (everything_else ds h ! 3) = domain_fallback"
    and "\<forall>c\<in>set NUM. jmap (everything_else ds h ! 0) c \<noteq> None"
    and "\<forall>c. c \<notin> set NUM \<longrightarrow> jmap (everything_else ds h ! 0) c = jmap (h ! 0) c"
    and "\<forall>q. 3 < q \<and> q \<notin> set ds \<longrightarrow> jmap (everything_else ds h ! q) = jmap (h ! q)"
    and "ext h (everything_else ds h)"
proof -
  from mid_length[OF m] have l: "0 < length h" "1 < length h" "2 < length h" "3 < length h" by auto
  from mid_T[OF m] have t: "T (h ! 0) = None" "T (h ! 1) = Some T_NUM" "T (h ! 2) = Some T_DOMAIN"
    "T (h ! 3) = None" by (simp_all add: base_tags)
  let ?k1 = "State_on_list 0 NUM 1 h"
  let ?k2 = "State_on 1 (CHR ''-'') 3 ?k1"
  let ?k3 = "State_on_list 1 NUM 1 ?k2"
  let ?k4 = "State_on_list 1 ALPHANUM 2 ?k3"
  let ?k5 = "State_on 2 (CHR ''-'') 3 ?k4"
  let ?k6 = "State_on_list 2 ALPHANUM 2 ?k5"
  let ?k7 = "domain_jumps ds ?k6"
  let ?k8 = "State_on 3 (CHR ''-'') 3 ?k7"
  let ?k9 = "State_on_list 3 NUM 2 ?k8"
  let ?k10 = "State_on_list 3 ALPHANUM 2 ?k9"
  have e: "everything_else ds h = ?k10"
    by (simp add: everything_else_def S_START_def S_NUM_def S_DOMAIN_def S_DOMAIN_HYPHEN_def)
  have 1: "mid A True True ?k1"
    using l t by (intro mid_State_on_list[OF m]) (simp_all add: P_all_num)
  have 2: "mid A True True ?k2"
    using l t by (intro mid_State_on[OF 1]) (simp_all add: P_all_hyphen)
  have 3: "mid A True True ?k3"
    using l t by (intro mid_State_on_list[OF 2]) (simp_all add: P_all_num)
  have 4: "mid A True True ?k4"
    using l t by (intro mid_State_on_list[OF 3]) (simp_all add: P_all_domain)
  have 5: "mid A True True ?k5"
    using l t by (intro mid_State_on[OF 4]) (simp_all add: P_all_hyphen)
  have 6: "mid A True True ?k6"
    using l t by (intro mid_State_on_list[OF 5]) (simp_all add: P_all_domain)
  have 7: "mid A True True ?k7"
    using ds by (intro mid_domain_jumps[OF 6]) simp
  have 8: "mid A True True ?k8"
    using l t by (intro mid_State_on[OF 7]) (simp_all add: P_all_hyphen)
  have 9: "mid A True True ?k9"
    using l t by (intro mid_State_on_list[OF 8]) (simp_all add: P_all_domain NUM_ALPHANUM)
  have 10: "mid A True True ?k10"
    using l t by (intro mid_State_on_list[OF 9]) (simp_all add: P_all_domain)
  show "mid A True True (everything_else ds h)" unfolding e by (rule 10)
  show "ext h (everything_else ds h)" unfolding e by (intro ext_intros)
  have "\<forall>s\<in>set ds. complete ?k7 s" using ds by (intro complete_domain_jumps) simp
  moreover have "ext ?k7 ?k10" by (intro ext_intros)
  ultimately show "\<forall>s\<in>set ds. complete (everything_else ds h) s"
    unfolding e using ds complete_ext[of ?k7 ?k10] by simp
  have "complete ?k4 1"
    using l by (intro complete_State_on_list) (simp_all add: jmap_State_on_list jmap_State_on)
  moreover have "ext ?k4 ?k10" by (intro ext_intros)
  ultimately show "complete (everything_else ds h) 1"
    unfolding e using l complete_ext[of ?k4 ?k10 1] by simp
  have "complete ?k6 2"
    using l by (intro complete_State_on_list) (simp_all add: jmap_State_on)
  moreover have "ext ?k6 ?k10" by (intro ext_intros)
  ultimately show "complete (everything_else ds h) 2"
    unfolding e using l complete_ext[of ?k6 ?k10 2] by simp
  have "jmap (?k9 ! 3) (CHR ''-'') \<noteq> None"
    using l by (simp add: jmap_State_on_list jmap_State_on)
  then show "complete (everything_else ds h) 3"
    unfolding e using l by (intro complete_State_on_list) simp_all
  have nds: "0 \<notin> set ds" "1 \<notin> set ds" "2 \<notin> set ds" "3 \<notin> set ds" using ds by auto
  show "jmap (everything_else ds h ! 1) = num_fallback" if "\<forall>c. jmap (h ! 1) c = None"
    unfolding e using that l nds
    by (auto simp: fun_eq_iff State_on_other State_on_list_other domain_jumps_other
        jmap_State_on jmap_State_on_list num_fallback_def S_NUM_def S_DOMAIN_def
        S_DOMAIN_HYPHEN_def NUM_ALPHANUM)
  show "jmap (everything_else ds h ! 2) = domain_fallback" if "\<forall>c. jmap (h ! 2) c = None"
    unfolding e using that l nds
    by (auto simp: fun_eq_iff State_on_other State_on_list_other domain_jumps_other
        jmap_State_on jmap_State_on_list domain_fallback_def S_DOMAIN_def S_DOMAIN_HYPHEN_def)
  show "jmap (everything_else ds h ! 3) = domain_fallback" if "\<forall>c. jmap (h ! 3) c = None"
    unfolding e using that l nds
    by (auto simp: fun_eq_iff State_on_other State_on_list_other domain_jumps_other
        jmap_State_on jmap_State_on_list domain_fallback_def S_DOMAIN_def S_DOMAIN_HYPHEN_def
        NUM_ALPHANUM)
  have "\<forall>c\<in>set NUM. jmap (?k1 ! 0) c \<noteq> None"
    using l by (simp add: mapped_State_on_list)
  moreover have "ext ?k1 ?k10" by (intro ext_intros)
  ultimately show "\<forall>c\<in>set NUM. jmap (everything_else ds h ! 0) c \<noteq> None"
    unfolding e using l ext_mapped[of ?k1 ?k10 0] by simp
  show "\<forall>c. c \<notin> set NUM \<longrightarrow> jmap (everything_else ds h ! 0) c = jmap (h ! 0) c"
    unfolding e using l nds
    by (simp add: State_on_other State_on_list_other domain_jumps_other jmap_State_on_list)
  show "\<forall>q. 3 < q \<and> q \<notin> set ds \<longrightarrow> jmap (everything_else ds h ! q) = jmap (h ! q)"
    unfolding e by (simp add: State_on_other State_on_list_other domain_jumps_other)
qed

section \<open>The automaton that the module builds\<close>

lemma stateify_summary:
  assumes "stateify w s e dt h = (news, h')"
  shows "ext h h'" "news = [length h..<length h']" "length h \<le> length h'"
    "\<forall>q. length h \<le> q \<and> q < length h' \<longrightarrow> T (h' ! q) = Some e \<or> T (h' ! q) = Some dt"
  using ext_stateify[of h w s e dt] stateify_new[of w s e dt h] length_stateify[of h w s e dt] assms
  by simp_all

definition all_dom :: "heap \<Rightarrow> bool" where
  "all_dom h \<longleftrightarrow> (\<forall>q. 20 \<le> q \<and> q < length h \<longrightarrow> dom_tag (T (h ! q)))"

lemma all_dom_ext:
  assumes "all_dom h" "ext h h'" "\<forall>q. length h \<le> q \<and> q < length h' \<longrightarrow> dom_tag (T (h' ! q))"
  shows "all_dom h'"
  unfolding all_dom_def
proof (intro allI impI)
  fix q assume q: "20 \<le> q \<and> q < length h'"
  show "dom_tag (T (h' ! q))"
  proof (cases "q < length h")
    case True
    with assms(1,2) q show ?thesis by (simp add: all_dom_def ext_def)
  next
    case False
    with assms(3) q show ?thesis by simp
  qed
qed

lemma all_dom_stateify:
  assumes "all_dom h" "stateify w s e T_DOMAIN h = (news, h')" "dom_tag (Some e)"
  shows "all_dom h'"
  using stateify_summary[OF assms(2)] assms(3)
  by (intro all_dom_ext[OF assms(1)]) auto

definition built :: "bool \<Rightarrow> heap \<Rightarrow> bool" where
  "built A h \<longleftrightarrow>
     (\<exists>n. length h = Suc n \<and> 20 \<le> n
        \<and> d (h ! 0) = Some n \<and> (\<forall>p. 0 < p \<and> p \<le> n \<longrightarrow> d (h ! p) = None)
        \<and> T (h ! n) = Some T_SYM \<and> (\<forall>c. jmap (h ! n) c = None)
        \<and> (\<forall>p<n. \<forall>c q. jmap (h ! p) c = Some q \<longrightarrow>
               q < n \<and> P_all A True True (T (h ! p)) p c (T (h ! q)) q)
        \<and> (\<forall>q<20. T (h ! q) = T (base ! q))
        \<and> (\<forall>p<20. \<forall>c q. jmap (base ! p) c = Some q \<longrightarrow> jmap (h ! p) c = Some q)
        \<and> (\<forall>q. 20 \<le> q \<and> q < n \<longrightarrow> dom_tag (T (h ! q)) \<or> T (h ! q) = Some T_PROTOCOL)
        \<and> (\<forall>p<n. dom_tag (T (h ! p)) \<or> p = 3 \<longrightarrow> complete h p)
        \<and> (\<forall>c\<in>set NUM. jmap (h ! 0) c \<noteq> None)
        \<and> (A \<longrightarrow> jmap (h ! 1) = num_fallback \<and> jmap (h ! 2) = domain_fallback
               \<and> jmap (h ! 3) = domain_fallback))"

lemma default_transition_nth:
  assumes "0 < length h'"
  shows "length (default_transition h') = Suc (length h')"
    "d (default_transition h' ! 0) = Some (length h')"
    "\<And>p. 0 < p \<Longrightarrow> p < length h' \<Longrightarrow> d (default_transition h' ! p) = d (h' ! p)"
    "d (default_transition h' ! length h') = None"
    "T (default_transition h' ! length h') = Some T_SYM"
    "jmap (default_transition h' ! length h') = Map.empty"
    "\<And>p. p < length h' \<Longrightarrow> T (default_transition h' ! p) = T (h' ! p)"
    "\<And>p. p < length h' \<Longrightarrow> jmap (default_transition h' ! p) = jmap (h' ! p)"
  using assms
  by (auto simp: default_transition_def makeState_def S_START_def nth_list_update nth_append)

lemma scanner_built:
  assumes S: "scanner tlds = Inr h" and A: "A \<longrightarrow> (\<forall>w\<in>set tlds. set w \<subseteq> set ALPHANUM)"
  shows "built A h"
proof -
  from scannerE[OF S] obtain ds1 h1 fileS h2 ftpS h3 httpS h4 locS h6 where
    c1: "tld_states tlds ([], base) = (ds1, h1)" and
    c2: "stateify ''file'' S_START T_DOMAIN T_DOMAIN h1 = (fileS, h2)" and
    c3: "stateify ''ftp'' S_START T_DOMAIN T_DOMAIN h2 = (ftpS, h3)" and
    c4: "stateify ''http'' S_START T_DOMAIN T_DOMAIN h3 = (httpS, h4)" and
    ne: "fileS \<noteq> []" "ftpS \<noteq> []" "httpS \<noteq> []" and
    c6: "stateify ''localhost'' S_START T_LOCALHOST T_DOMAIN
       (protocol_jumps (last fileS) (last ftpS) (last httpS) (length h4) (Suc (length h4))
          (h4 @ [\<lparr>jmap = Map.empty, d = None, T = Some T_DOMAIN\<rparr>,
                 \<lparr>jmap = Map.empty, d = None, T = Some T_PROTOCOL\<rparr>])) = (locS, h6)" and
    hh0: "h = default_transition
           (everything_else (ds1 @ fileS @ ftpS @ httpS @ [length h4] @ locS) h6)"
    by blast
  from hh0 have hh: "h = default_transition
           (everything_else (ds1 @ fileS @ ftpS @ httpS @ length h4 # locS) h6)"
    by simp
  let ?h5 = "h4 @ [\<lparr>jmap = Map.empty, d = None, T = Some T_DOMAIN\<rparr>,
                 \<lparr>jmap = Map.empty, d = None, T = Some T_PROTOCOL\<rparr>]"
  let ?pj = "protocol_jumps (last fileS) (last ftpS) (last httpS) (length h4) (Suc (length h4)) ?h5"
  let ?ds = "ds1 @ fileS @ ftpS @ httpS @ length h4 # locS"
  let ?h' = "everything_else ?ds h6"
  have words: "set ''file'' \<subseteq> set ALPHANUM" "set ''ftp'' \<subseteq> set ALPHANUM"
    "set ''http'' \<subseteq> set ALPHANUM" "set ''localhost'' \<subseteq> set ALPHANUM"
    "COLON \<notin> set ''localhost''"
    by (simp_all add: ALPHANUM_def COLON_def)
  \<comment> \<open>the loop over the top-level domains\<close>
  from tld_states_new[of base tlds "[]"] c1 have
    n1: "ext base h1" "ds1 = [20..<length h1]"
      "\<forall>q. 20 \<le> q \<and> q < length h1 \<longrightarrow> T (h1 ! q) = Some T_TLD \<or> T (h1 ! q) = Some T_DOMAIN"
    by simp_all
  have m1: "mid A False False h1"
    using mid_tld_states[OF mid_base A, of "[]"] c1 by simp
  have d1: "all_dom h1" using n1(3) by (auto simp: all_dom_def)
  \<comment> \<open>the protocols\<close>
  note s2 = stateify_summary[OF c2] and s3 = stateify_summary[OF c3]
    and s4 = stateify_summary[OF c4] and s6 = stateify_summary[OF c6]
  have m2: "mid A False False h2"
    using mid_stateify[OF m1, of "''file''" T_DOMAIN] words c2 by simp
  have m3: "mid A False False h3"
    using mid_stateify[OF m2, of "''ftp''" T_DOMAIN] words c3 by simp
  have m4: "mid A False False h4"
    using mid_stateify[OF m3, of "''http''" T_DOMAIN] words c4 by simp
  have d4: "all_dom h4"
    using all_dom_stateify[OF all_dom_stateify[OF all_dom_stateify[OF d1 c2] c3] c4] by simp
  have l: "20 \<le> length h1" using mid_length[OF m1] .
  have lens: "length h1 < length h2" "length h2 < length h3" "length h3 < length h4"
    using ne s2(2) s3(2) s4(2) by auto
  have lasts: "last fileS = length h2 - 1" "last ftpS = length h3 - 1" "last httpS = length h4 - 1"
    using lens s2(2) s3(2) s4(2) by simp_all
  have m5: "mid A True False ?h5"
    using mid_weaken[OF mid_makeState[OF mid_makeState[OF m4]], of True False] by simp
  have T5: "T (?h5 ! q) = T (h4 ! q)" if "q < length h4" for q
    using that by (simp add: nth_append)
  have mpj: "mid A True False ?pj"
  proof (rule mid_protocol_jumps[OF m5])
    show "20 \<le> last fileS" "20 \<le> last ftpS" "20 \<le> last httpS"
      using lasts lens l by auto
    show "last fileS < length ?h5" "last ftpS < length ?h5" "last httpS < length ?h5"
      using lasts lens by auto
    have dl: "dom_tag (T (?h5 ! q))" if "20 \<le> q" "q < length h4" for q
      using d4 that by (simp add: T5 all_dom_def)
    show "dom_tag (T (?h5 ! last fileS))" using lasts lens l by (intro dl) linarith+
    show "dom_tag (T (?h5 ! last ftpS))" using lasts lens l by (intro dl) linarith+
    show "dom_tag (T (?h5 ! last httpS))" using lasts lens l by (intro dl) linarith+
    show "20 \<le> length h4" "20 \<le> Suc (length h4)" using lens l by auto
    show "length h4 < length ?h5" "Suc (length h4) < length ?h5" by auto
    show "T (?h5 ! length h4) = Some T_DOMAIN" "T (?h5 ! Suc (length h4)) = Some T_PROTOCOL"
      by (simp_all add: nth_append)
  qed
  have lpj: "length ?pj = Suc (Suc (length h4))" by (simp add: protocol_jumps_def)
  have Tpj: "T (?pj ! q) = T (?h5 ! q)" for q by (simp add: protocol_jumps_def)
  \<comment> \<open>localhost\<close>
  have m6: "mid A True False h6"
    using mid_stateify[OF mpj, of "''localhost''" T_LOCALHOST] words c6 by simp
  have T6: "T (h6 ! q) = T (?h5 ! q)" if "q < Suc (Suc (length h4))" for q
    using s6(1) that lpj Tpj by (simp add: ext_def)
  have l6: "Suc (Suc (length h4)) \<le> length h6" using s6(3) lpj by simp
  have tags6: "dom_tag (T (h6 ! q))"
    if q20: "20 \<le> q" and ql: "q < length h6" and qn: "q \<noteq> Suc (length h4)" for q
  proof -
    from qn consider "q < length h4" | "q = length h4" | "Suc (Suc (length h4)) \<le> q"
      by atomize_elim linarith
    then show ?thesis
    proof cases
      case 1
      with d4 q20 show ?thesis by (simp add: T6 T5 all_dom_def)
    next
      case 2
      then show ?thesis by (simp add: T6 nth_append)
    next
      case 3
      with s6(4) ql lpj show ?thesis by auto
    qed
  qed
  have full: "T (h6 ! Suc (length h4)) = Some T_PROTOCOL"
    by (simp add: T6 nth_append)
  have dset: "set ?ds = {20..<length h6} - {Suc (length h4)}"
    using n1(2) s2(2,3) s3(2,3) s4(2,3) s6(2) lpj l l6 by auto
  have ds: "\<forall>s\<in>set ?ds. 20 \<le> s \<and> s < length h6 \<and> dom_tag (T (h6 ! s))"
    using tags6 unfolding dset by auto
  \<comment> \<open>the fallback jumps and the default transition\<close>
  have m6': "mid A True True h6" using mid_weaken[OF m6, of True True] by simp
  note E = everything_else_facts[OF m6' ds]
  from E(1) have mh: "mid A True True ?h'" .
  let ?n = "length ?h'"
  have ln: "?n = length h6" using E(12) mid_length[OF mh] by (simp add: everything_else_def)
  have n20: "20 \<le> ?n" using mid_length[OF mh] .
  then have n0: "0 < ?n" by linarith
  note D = default_transition_nth[OF n0]
  have eh: "ext h6 ?h'" using E(12) .
  have Th': "T (?h' ! q) = T (h6 ! q)" if "q < length h6" for q
    using eh that by (simp add: ext_def)
  have pre: "\<forall>c. jmap (h6 ! q) c = None" if a: A and q0: "0 < q" and q4: "q < 4" for q
  proof (intro allI)
    fix c
    show "jmap (h6 ! q) c = None"
    proof (rule ccontr)
      assume "jmap (h6 ! q) c \<noteq> None"
      then obtain x where x: "jmap (h6 ! q) c = Some x" by auto
      from m6 have "edges_ok (P_all A True False) h6" by (simp add: mid_def)
      with x q4 l6 lens l have "P_all A True False (T (h6 ! q)) q c (T (h6 ! x)) x"
        unfolding edges_ok_def by auto
      with a have "P_pre q c x" by (simp add: P_all_def)
      with q0 q4 show False by (simp add: P_pre_def)
    qed
  qed
  show ?thesis
    unfolding built_def
  proof (intro exI[of _ ?n] conjI)
    show "length h = Suc ?n" unfolding hh by (rule D(1))
    show "20 \<le> ?n" by (rule n20)
    show "d (h ! 0) = Some ?n" unfolding hh by (rule D(2))
    show "\<forall>p. 0 < p \<and> p \<le> ?n \<longrightarrow> d (h ! p) = None"
    proof (intro allI impI)
      fix p assume p: "0 < p \<and> p \<le> ?n"
      show "d (h ! p) = None"
      proof (cases "p = ?n")
        case True
        then show ?thesis unfolding hh using D(4) by simp
      next
        case False
        with p have "p < ?n" by simp
        with p mh show ?thesis unfolding hh by (simp add: D(3) mid_def)
      qed
    qed
    show "T (h ! ?n) = Some T_SYM" unfolding hh by (rule D(5))
    show "\<forall>c. jmap (h ! ?n) c = None" unfolding hh by (simp add: D(6))
    show "\<forall>p<?n. \<forall>c q. jmap (h ! p) c = Some q \<longrightarrow>
            q < ?n \<and> P_all A True True (T (h ! p)) p c (T (h ! q)) q"
    proof (intro allI impI)
      fix p c q assume p: "p < ?n" and j: "jmap (h ! p) c = Some q"
      from j p have j': "jmap (?h' ! p) c = Some q" unfolding hh by (simp add: D(8))
      from mh p j' have q: "q < ?n" "P_all A True True (T (?h' ! p)) p c (T (?h' ! q)) q"
        unfolding mid_def edges_ok_def by blast+
      with p show "q < ?n \<and> P_all A True True (T (h ! p)) p c (T (h ! q)) q"
        unfolding hh by (simp add: D(7))
    qed
    show "\<forall>q<20. T (h ! q) = T (base ! q)"
      using n20 mid_T[OF mh] unfolding hh by (simp add: D(7))
    show "\<forall>p<20. \<forall>c q. jmap (base ! p) c = Some q \<longrightarrow> jmap (h ! p) c = Some q"
    proof (intro allI impI)
      fix p c q assume p: "p < (20::nat)" and j: "jmap (base ! p) c = Some q"
      from mh have "ext base ?h'" by (simp add: mid_def)
      with p j have "jmap (?h' ! p) c = Some q" unfolding ext_def by simp
      with p n20 show "jmap (h ! p) c = Some q" unfolding hh by (simp add: D(8))
    qed
    show "\<forall>q. 20 \<le> q \<and> q < ?n \<longrightarrow> dom_tag (T (h ! q)) \<or> T (h ! q) = Some T_PROTOCOL"
    proof (intro allI impI)
      fix q assume q: "20 \<le> q \<and> q < ?n"
      then have "T (h ! q) = T (h6 ! q)" unfolding hh using ln by (simp add: D(7) Th')
      with tags6[of q] full q ln show "dom_tag (T (h ! q)) \<or> T (h ! q) = Some T_PROTOCOL"
        by (cases "q = Suc (length h4)") auto
    qed
    show "\<forall>p<?n. dom_tag (T (h ! p)) \<or> p = 3 \<longrightarrow> complete h p"
    proof (intro allI impI)
      fix p assume p: "p < ?n" and t: "dom_tag (T (h ! p)) \<or> p = 3"
      have Tp: "T (h ! p) = T (h6 ! p)" unfolding hh using p ln by (simp add: D(7) Th')
      have "complete ?h' p"
      proof (cases "p < 20")
        case True
        then have "T (h6 ! p) = T (base ! p)" using mid_T[OF m6] by simp
        with t Tp have dt: "dom_tag (T (base ! p)) \<or> p = 3" by simp
        from True consider "p = 0" | "p = 1" | "p = 2" | "p = 3" | "p = 4" | "p = 5" | "p = 6"
          | "p = 7" | "p = 8" | "p = 9" | "p = 10" | "p = 11" | "p = 12" | "p = 13" | "p = 14"
          | "p = 15" | "p = 16" | "p = 17" | "p = 18" | "p = 19"
          by atomize_elim arith
        then have "p = 1 \<or> p = 2 \<or> p = 3"
          using dt by cases (simp_all add: base_tags dom_tag_def)
        with E(3,4,5) show ?thesis by auto
      next
        case False
        with t Tp full have "p \<noteq> Suc (length h4)" by auto
        with False p ln have "p \<in> set ?ds" unfolding dset by simp
        with E(2) show ?thesis by blast
      qed
      then show "complete h p"
        unfolding complete_def hh using p by (simp add: D(8))
    qed
    show "\<forall>c\<in>set NUM. jmap (h ! 0) c \<noteq> None"
      using E(9) n0 unfolding hh by (simp add: D(8))
    show "A \<longrightarrow> jmap (h ! 1) = num_fallback \<and> jmap (h ! 2) = domain_fallback
               \<and> jmap (h ! 3) = domain_fallback"
    proof
      assume a: A
      from pre[OF a, of 1] pre[OF a, of 2] pre[OF a, of 3]
      have "jmap (?h' ! 1) = num_fallback" "jmap (?h' ! 2) = domain_fallback"
        "jmap (?h' ! 3) = domain_fallback"
        using E(6,7,8) by simp_all
      with n20 show "jmap (h ! 1) = num_fallback \<and> jmap (h ! 2) = domain_fallback
               \<and> jmap (h ! 3) = domain_fallback"
        unfolding hh by (simp add: D(8))
    qed
  qed
qed

section \<open>When the construction succeeds\<close>

lemma scannerI:
  assumes "fst (stateify ''file'' S_START T_DOMAIN T_DOMAIN (snd (tld_states tlds ([], base)))) \<noteq> []"
    "fst (stateify ''ftp'' S_START T_DOMAIN T_DOMAIN
       (snd (stateify ''file'' S_START T_DOMAIN T_DOMAIN (snd (tld_states tlds ([], base)))))) \<noteq> []"
    "fst (stateify ''http'' S_START T_DOMAIN T_DOMAIN
       (snd (stateify ''ftp'' S_START T_DOMAIN T_DOMAIN
       (snd (stateify ''file'' S_START T_DOMAIN T_DOMAIN (snd (tld_states tlds ([], base)))))))) \<noteq> []"
  shows "\<exists>h. scanner tlds = Inr h"
  using assms
  unfolding scanner_def protocol_states_def symbol_states_base
  by (simp add: split_def pop_def)

lemma scanner_nil: "\<exists>h. scanner [] = Inr h"
  by (rule scannerI)
     (simp_all add: stateify.simps State_next_def makeState_def State_on_def base_def
        base_start_def base_ws_def S_START_def list_update_Cons_numeral)

lemma builtE:
  assumes "built A h"
  obtains n where "length h = Suc n" "20 \<le> n"
    "d (h ! 0) = Some n" "\<forall>p. 0 < p \<and> p \<le> n \<longrightarrow> d (h ! p) = None"
    "T (h ! n) = Some T_SYM" "\<forall>c. jmap (h ! n) c = None"
    "\<forall>p<n. \<forall>c q. jmap (h ! p) c = Some q \<longrightarrow>
               q < n \<and> P_all A True True (T (h ! p)) p c (T (h ! q)) q"
    "\<forall>q<20. T (h ! q) = T (base ! q)"
    "\<forall>p<20. \<forall>c q. jmap (base ! p) c = Some q \<longrightarrow> jmap (h ! p) c = Some q"
    "\<forall>q. 20 \<le> q \<and> q < n \<longrightarrow> dom_tag (T (h ! q)) \<or> T (h ! q) = Some T_PROTOCOL"
    "\<forall>p<n. dom_tag (T (h ! p)) \<or> p = 3 \<longrightarrow> complete h p"
    "\<forall>c\<in>set NUM. jmap (h ! 0) c \<noteq> None"
    "A \<longrightarrow> jmap (h ! 1) = num_fallback \<and> jmap (h ! 2) = domain_fallback
               \<and> jmap (h ! 3) = domain_fallback"
proof -
  from assms obtain n where B: "length h = Suc n \<and> 20 \<le> n
        \<and> d (h ! 0) = Some n \<and> (\<forall>p. 0 < p \<and> p \<le> n \<longrightarrow> d (h ! p) = None)
        \<and> T (h ! n) = Some T_SYM \<and> (\<forall>c. jmap (h ! n) c = None)
        \<and> (\<forall>p<n. \<forall>c q. jmap (h ! p) c = Some q \<longrightarrow>
               q < n \<and> P_all A True True (T (h ! p)) p c (T (h ! q)) q)
        \<and> (\<forall>q<20. T (h ! q) = T (base ! q))
        \<and> (\<forall>p<20. \<forall>c q. jmap (base ! p) c = Some q \<longrightarrow> jmap (h ! p) c = Some q)
        \<and> (\<forall>q. 20 \<le> q \<and> q < n \<longrightarrow> dom_tag (T (h ! q)) \<or> T (h ! q) = Some T_PROTOCOL)
        \<and> (\<forall>p<n. dom_tag (T (h ! p)) \<or> p = 3 \<longrightarrow> complete h p)
        \<and> (\<forall>c\<in>set NUM. jmap (h ! 0) c \<noteq> None)
        \<and> (A \<longrightarrow> jmap (h ! 1) = num_fallback \<and> jmap (h ! 2) = domain_fallback
               \<and> jmap (h ! 3) = domain_fallback)"
    unfolding built_def ..
  show thesis
    by (rule that[of n]; insert B; elim conjE; assumption)
qed

lemma built_edge:
  assumes "built A h" "p < length h - 1" "jmap (h ! p) c = Some q"
  shows "q < length h - 1" "P_gen True (T (h ! p)) p c (T (h ! q)) q"
    "A \<Longrightarrow> P_aln (T (h ! p)) p c (T (h ! q)) q"
proof -
  from assms(1) obtain n where n: "length h = Suc n"
    and e: "\<forall>p<n. \<forall>c q. jmap (h ! p) c = Some q \<longrightarrow>
               q < n \<and> P_all A True True (T (h ! p)) p c (T (h ! q)) q"
    by (rule builtE)
  from assms(2) n have "p < n" by simp
  with e assms(3) have *: "q < n \<and> P_all A True True (T (h ! p)) p c (T (h ! q)) q" by blast
  from * n show "q < length h - 1" by simp
  from * show "P_gen True (T (h ! p)) p c (T (h ! q)) q" unfolding P_all_def by blast
  from * show "P_aln (T (h ! p)) p c (T (h ! q)) q" if A using that unfolding P_all_def by blast
qed

lemma built_start_ok:
  assumes "built A h"
  shows "start_ok h"
  unfolding start_ok_def
proof
  fix c
  from assms obtain n where n: "length h = Suc n" "20 \<le> n" "d (h ! 0) = Some n"
    "T (h ! n) = Some T_SYM"
    by (rule builtE)
  show "\<exists>s. State_next h S_START c = Some s \<and> T (h ! s) \<noteq> None"
  proof (cases "jmap (h ! 0) c")
    case None
    with n show ?thesis by (simp add: State_next_def S_START_def)
  next
    case (Some q)
    from built_edge(2)[OF assms _ Some] n have "P_gen True (T (h ! 0)) 0 c (T (h ! q)) q" by simp
    then have "T (h ! q) \<noteq> None" unfolding P_gen_def by blast
    with Some show ?thesis by (simp add: State_next_def S_START_def)
  qed
qed

lemma scanner_start_ok: "scanner tlds = Inr h \<Longrightarrow> start_ok h"
  using scanner_built[of tlds h False] built_start_ok by simp

lemma scan_tokens_concat:
  "start_ok h \<Longrightarrow> length lstr = length str \<Longrightarrow>
   concat (map tok_text (scan_tokens h str lstr)) = str"
proof (induction h str lstr rule: scan_tokens.induct)
  case (1 h str lstr)
  show ?case
  proof (cases "lstr = []")
    case True
    with 1(3) show ?thesis by (subst scan_tokens.simps) simp
  next
    case False
    from start_ok_match[OF 1(2) False] obtain n a t where
      m: "longest_match h S_START lstr = Some (n, a)" and t: "T (h ! a) = Some t" by blast
    have "concat (map tok_text (scan_tokens h (drop n str) (drop n lstr))) = drop n str"
      using 1(1)[OF False m refl t 1(2)] 1(3) by simp
    then show ?thesis
      using False m t by (subst scan_tokens.simps) simp
  qed
qed

lemma scan_tokens_nonempty:
  "length lstr = length str \<Longrightarrow> tok \<in> set (scan_tokens h str lstr) \<Longrightarrow> tok_text tok \<noteq> []"
proof (induction h str lstr rule: scan_tokens.induct)
  case (1 h str lstr)
  show ?case
  proof (cases "lstr = []")
    case True
    with 1(3) show ?thesis by (subst (asm) scan_tokens.simps) simp
  next
    case False
    show ?thesis
    proof (cases "longest_match h S_START lstr")
      case None
      with False 1(3) show ?thesis by (subst (asm) scan_tokens.simps) simp
    next
      case (Some na)
      obtain n a where na: "na = (n, a)" by (cases na)
      show ?thesis
      proof (cases "T (h ! a)")
        case None
        with False Some na 1(3) show ?thesis by (subst (asm) scan_tokens.simps) simp
      next
        case t: (Some t)
        from longest_match_bounds[OF Some[unfolded na]] have n: "0 < n" by simp
        from False 1(2) have s: "str \<noteq> []" by auto
        from 1(3) have "tok = Token t (take n str) \<or> tok \<in> set (scan_tokens h (drop n str) (drop n lstr))"
          using False Some na t by (subst (asm) scan_tokens.simps) simp
        then show ?thesis
        proof
          assume "tok = Token t (take n str)"
          with n s show ?thesis by simp
        next
          assume "tok \<in> set (scan_tokens h (drop n str) (drop n lstr))"
          with 1(1)[OF False Some[unfolded na] refl t] 1(2) show ?thesis by simp
        qed
      qed
    qed
  qed
qed

section \<open>Longest matches and boundaries\<close>











lemma scan_tokens_Nil [simp]: "scan_tokens h str [] = []"
  by (subst scan_tokens.simps) simp





section \<open>Facts about the automaton that the module builds\<close>

lemma built_untagged:
  assumes B: "built A h" and q: "q < length h" and t: "T (h ! q) = None"
  shows "q = 0 \<or> q = 3"
proof -
  from B obtain n where n: "length h = Suc n" "20 \<le> n" "T (h ! n) = Some T_SYM"
    "\<forall>q<20. T (h ! q) = T (base ! q)"
    "\<forall>q. 20 \<le> q \<and> q < n \<longrightarrow> dom_tag (T (h ! q)) \<or> T (h ! q) = Some T_PROTOCOL"
    by (rule builtE)
  consider "q < 20" | "20 \<le> q" "q < n" | "q = n" using q n(1) by atomize_elim arith
  then show ?thesis
  proof cases
    case 1
    with n(4) t have tb: "T (base ! q) = None" by simp
    from 1 consider "q = 0" | "q = 1" | "q = 2" | "q = 3" | "q = 4" | "q = 5" | "q = 6"
      | "q = 7" | "q = 8" | "q = 9" | "q = 10" | "q = 11" | "q = 12" | "q = 13" | "q = 14"
      | "q = 15" | "q = 16" | "q = 17" | "q = 18" | "q = 19"
      by atomize_elim arith
    then show ?thesis using tb by cases (simp_all add: base_tags)
  next
    case 2
    with n(5) t show ?thesis by auto
  next
    case 3
    with n(3) t show ?thesis by simp
  qed
qed

lemma built_sym_state:
  assumes B: "built A h"
  shows "d (h ! S_START) = Some (length h - 1)" "T (h ! (length h - 1)) = Some T_SYM"
    "State_next h (length h - 1) c = None"
proof -
  from B obtain n where n: "length h = Suc n" "20 \<le> n" "d (h ! 0) = Some n"
    "\<forall>p. 0 < p \<and> p \<le> n \<longrightarrow> d (h ! p) = None" "T (h ! n) = Some T_SYM"
    "\<forall>c. jmap (h ! n) c = None"
    by (rule builtE)
  from n show "d (h ! S_START) = Some (length h - 1)" by (simp add: S_START_def)
  from n show "T (h ! (length h - 1)) = Some T_SYM" by simp
  from n(2,4) have "d (h ! n) = None" by simp
  with n show "State_next h (length h - 1) c = None" by (simp add: State_next_def)
qed

lemma built_next:
  assumes B: "built A h" and p: "p < length h" and nx: "State_next h p c = Some q"
  shows "q < length h" "q \<noteq> 0" "T (h ! q) = None \<Longrightarrow> c = CHR ''-'' \<and> p \<noteq> 0"
    "T (h ! q) = Some T_PROTOCOL \<Longrightarrow> c = COLON"
    "jmap (h ! p) c = None \<Longrightarrow> p = 0 \<and> q = length h - 1"
    "jmap (h ! p) c \<noteq> None \<Longrightarrow> jmap (h ! p) c = Some q \<and> p < length h - 1 \<and> q < length h - 1"
proof -
  from B obtain n where n: "length h = Suc n" "20 \<le> n" "d (h ! 0) = Some n"
    "\<forall>p. 0 < p \<and> p \<le> n \<longrightarrow> d (h ! p) = None" "T (h ! n) = Some T_SYM"
    "\<forall>c. jmap (h ! n) c = None"
    by (rule builtE)
  have pn: "p < n"
  proof (rule ccontr)
    assume "\<not> p < n"
    with p n(1) have "p = length h - 1" by simp
    with built_sym_state(3)[OF B, of c] nx show False by simp
  qed
  have *: "q < length h \<and> q \<noteq> 0 \<and> (T (h ! q) = None \<longrightarrow> c = CHR ''-'' \<and> p \<noteq> 0)
      \<and> (T (h ! q) = Some T_PROTOCOL \<longrightarrow> c = COLON)
      \<and> (jmap (h ! p) c = None \<longrightarrow> p = 0 \<and> q = length h - 1)
      \<and> (jmap (h ! p) c \<noteq> None \<longrightarrow> jmap (h ! p) c = Some q \<and> p < length h - 1 \<and> q < length h - 1)"
  proof (cases "jmap (h ! p) c")
    case None
    with nx have dq: "d (h ! p) = Some q" by (simp add: State_next_def)
    with n(4) pn have p0: "p = 0" by (cases "p = 0") auto
    with dq n(3) have "q = n" by simp
    with n p0 None show ?thesis by simp
  next
    case (Some q')
    with nx have qq: "q' = q" by (simp add: State_next_def)
    from pn n(1) have pl: "p < length h - 1" by simp
    from built_edge(1,2)[OF B pl Some[unfolded qq]] n(1) Some qq pl
    show ?thesis unfolding P_gen_def by simp
  qed
  from * show "q < length h" "q \<noteq> 0" by blast+
  from * show "T (h ! q) = None \<Longrightarrow> c = CHR ''-'' \<and> p \<noteq> 0" by blast
  from * show "T (h ! q) = Some T_PROTOCOL \<Longrightarrow> c = COLON" by blast
  from * show "jmap (h ! p) c = None \<Longrightarrow> p = 0 \<and> q = length h - 1" by blast
  from * show "jmap (h ! p) c \<noteq> None \<Longrightarrow> jmap (h ! p) c = Some q \<and> p < length h - 1 \<and> q < length h - 1"
    by blast
qed

lemma built_start_in: "built A h \<Longrightarrow> S_START < length h"
  by (erule builtE) (simp add: S_START_def)


text \<open>What the rollback discards.\<close>

lemma rollback_hyphens:
  assumes B: "built A h"
  shows "s < length h \<Longrightarrow>
    (case longest_match h s r of
       Some (n, a) \<Rightarrow> \<forall>i. n \<le> i \<and> i < walk_len h s r \<longrightarrow> r ! i = CHR ''-''
     | None \<Rightarrow> \<forall>i<walk_len h s r. r ! i = CHR ''-'')"
proof (induction r arbitrary: s)
  case Nil
  then show ?case by simp
next
  case (Cons c cs)
  show ?case
  proof (cases "State_next h s c")
    case None
    then show ?thesis by simp
  next
    case (Some s')
    from built_next(1)[OF B Cons.prems Some] have s': "s' < length h" .
    note IH = Cons.IH[OF s']
    show ?thesis
    proof (cases "longest_match h s' cs")
      case (Some na)
      obtain n a where na: "na = (n, a)" by (cases na)
      from IH Some na have "\<forall>i. n \<le> i \<and> i < walk_len h s' cs \<longrightarrow> cs ! i = CHR ''-''" by simp
      then have "\<forall>i. Suc n \<le> i \<and> i < Suc (walk_len h s' cs) \<longrightarrow> (c # cs) ! i = CHR ''-''"
        by (auto simp: nth_Cons split: nat.splits)
      with Some na \<open>State_next h s c = Some s'\<close> show ?thesis by simp
    next
      case None
      with IH have r: "\<forall>i<walk_len h s' cs. cs ! i = CHR ''-''" by simp
      show ?thesis
      proof (cases "State_accepts h s'")
        case True
        from r have "\<forall>i. 1 \<le> i \<and> i < Suc (walk_len h s' cs) \<longrightarrow> (c # cs) ! i = CHR ''-''"
          by (auto simp: nth_Cons split: nat.splits)
        with True None \<open>State_next h s c = Some s'\<close> show ?thesis by simp
      next
        case False
        then have "T (h ! s') = None" by (simp add: State_accepts_def)
        from built_next(3)[OF B Cons.prems \<open>State_next h s c = Some s'\<close> this]
        have "c = CHR ''-''" by simp
        with r have "\<forall>i<Suc (walk_len h s' cs). (c # cs) ! i = CHR ''-''"
          by (auto simp: nth_Cons split: nat.splits)
        with False None \<open>State_next h s c = Some s'\<close> show ?thesis by simp
      qed
    qed
  qed
qed

text \<open>
  The iteration of the outer loop that starts at cursor \<open>k\<close>: where the inner loop stops,
  and how far it is past the last accepting state.
\<close>

definition rollback :: "heap \<Rightarrow> string \<Rightarrow> nat \<Rightarrow> int" where
  "rollback h str k = sinceAccepts (scan_from h (lowerStr str) (int (length str)) (int k))"

definition stop :: "heap \<Rightarrow> string \<Rightarrow> nat \<Rightarrow> int" where
  "stop h str k = cursor (scan_from h (lowerStr str) (int (length str)) (int k))"

lemma iteration_fields:
  assumes "k \<le> length str"
    "longest_match h S_START (drop k (lowerStr str)) = Some (n, a)"
  shows "stop h str k = int k + int (walk_len h S_START (drop k (lowerStr str)))"
    "rollback h str k = int (walk_len h S_START (drop k (lowerStr str))) - int n"
  using inner_loop_fields[where h = h and lstr = "lowerStr str"
      and s = "\<lparr>state = S_START, latestAccepting = None, sinceAccepts = - 1,
        tokenLength = 0, cursor = int k\<rparr>"] assms
  unfolding stop_def rollback_def scan_from_def by simp_all

lemma iteration_progress:
  assumes B: "built A h" and k: "k < length str"
  shows "0 \<le> rollback h str k" "int k + 1 \<le> stop h str k - rollback h str k"
    "stop h str k \<le> int (length str)"
    "\<forall>i. stop h str k - rollback h str k \<le> int i \<and> int i < stop h str k
         \<longrightarrow> lowerStr str ! i = CHR ''-''"
proof -
  let ?r = "drop k (lowerStr str)"
  from k have ne: "?r \<noteq> []" by simp
  from start_ok_match[OF built_start_ok[OF B] ne] obtain n a t where
    m: "longest_match h S_START ?r = Some (n, a)" by blast
  from k have k': "k \<le> length str" by simp
  note f = iteration_fields[OF k' m]
  from longest_match_bounds[OF m] have n: "0 < n" "n \<le> walk_len h S_START ?r" by auto
  have wl: "walk_len h S_START ?r \<le> length ?r" by (rule walk_len_le)
  from f n show "0 \<le> rollback h str k" by simp
  from f n show "int k + 1 \<le> stop h str k - rollback h str k" by simp
  from f wl k show "stop h str k \<le> int (length str)" by simp
  from rollback_hyphens[OF B built_start_in[OF B], of ?r] m
  have hy: "\<forall>i. n \<le> i \<and> i < walk_len h S_START ?r \<longrightarrow> ?r ! i = CHR ''-''" by simp
  show "\<forall>i. stop h str k - rollback h str k \<le> int i \<and> int i < stop h str k
         \<longrightarrow> lowerStr str ! i = CHR ''-''"
  proof (intro allI impI)
    fix i assume i: "stop h str k - rollback h str k \<le> int i \<and> int i < stop h str k"
    with f have "k + n \<le> i" "i < k + walk_len h S_START ?r" by simp_all
    then have "n \<le> i - k" "i - k < walk_len h S_START ?r" "k \<le> i" by simp_all
    with hy have "?r ! (i - k) = CHR ''-''" by blast
    moreover have "?r ! (i - k) = lowerStr str ! i"
      using \<open>k \<le> i\<close> k by simp
    ultimately show "lowerStr str ! i = CHR ''-''" by simp
  qed
qed

lemma lower_char_id:
  "c \<in> set ALPHANUM \<Longrightarrow> lower_char c = c" "lower_char (CHR ''-'') = CHR ''-''"
  by (auto simp: lower_char_def ALPHANUM_def)

lemma P_genD:
  assumes "P_gen b tp p c tq q"
  shows "q \<noteq> 0" "tq = None \<Longrightarrow> c = CHR ''-'' \<and> p \<noteq> 0"
    "tq = Some T_PROTOCOL \<Longrightarrow> c = COLON" "tp \<noteq> Some T_PROTOCOL"
  using assms unfolding P_gen_def by blast+

lemma P_alnD:
  assumes "P_aln tp p c tq q"
  shows "c = CHR ''-'' \<Longrightarrow> tq = None"
    "c \<in> set WHITESPACE \<Longrightarrow> q = 4 \<and> (p = 0 \<or> p = 4)"
    "c = CHR 0x0A \<Longrightarrow> q = 19 \<and> p = 0"
    "q = 4 \<Longrightarrow> c \<in> set WHITESPACE"
    "q = 19 \<Longrightarrow> c = CHR 0x0A"
    "tp = Some T_WS \<Longrightarrow> c \<in> set WHITESPACE"
    "\<not> sym_tag tp"
    "c \<in> set ALPHANUM \<Longrightarrow> dom_tag tq"
    "dom_tag tp \<or> (tp = None \<and> p \<noteq> 0) \<Longrightarrow> c \<in> set ALPHANUM \<or> c = CHR ''-'' \<or> c = COLON"
    "p \<noteq> 0 \<and> c = COLON \<Longrightarrow> tq = Some T_PROTOCOL"
    "tq = Some T_NUM \<Longrightarrow> c \<in> set NUM"
    "tq = Some T_LOCALHOST \<Longrightarrow> c = CHR ''t''"
    "p = 0 \<and> c \<notin> set ALPHANUM \<Longrightarrow> base_start c = Some q"
  using assms unfolding P_aln_def by blast+

lemma built_hyphen_edge:
  assumes B: "built True h" and p: "p < length h - 1" and t: "dom_tag (T (h ! p)) \<or> p = 3"
  shows "State_next h p (CHR ''-'') = Some 3"
proof -
  from B obtain n where n: "length h = Suc n" "20 \<le> n"
    "\<forall>p<n. dom_tag (T (h ! p)) \<or> p = 3 \<longrightarrow> complete h p"
    by (rule builtE)
  from n(1) p have "p < n" by simp
  with n(3) t have "complete h p" by blast
  then obtain q where q: "jmap (h ! p) (CHR ''-'') = Some q" unfolding complete_def by blast
  note e = built_edge[OF B p q]
  have q': "q < length h - 1" "q \<noteq> 0" "T (h ! q) = None"
    using e(1) P_genD(1)[OF e(2)] P_alnD(1)[OF e(3)] by simp_all
  from built_untagged[OF B _ q'(3)] q'(1,2) have "q = 3" by simp
  with q show ?thesis by (simp add: State_next_def)
qed


lemma built_digit_start:
  assumes B: "built True h" and c: "c \<in> set NUM"
  obtains q where "State_next h S_START c = Some q" "q < length h - 1" "dom_tag (T (h ! q))"
proof -
  from B obtain n where n: "length h = Suc n" "20 \<le> n"
    "\<forall>c\<in>set NUM. jmap (h ! 0) c \<noteq> None"
    by (rule builtE)
  from n c obtain q where q: "jmap (h ! 0) c = Some q" by blast
  from n have p: "0 < length h - 1" by simp
  note e = built_edge[OF B p q]
  have q': "q < length h - 1" "dom_tag (T (h ! q))"
    using e(1) P_alnD(8)[OF e(3) NUM_ALPHANUM[OF c]] by simp_all
  from q have "State_next h S_START c = Some q" by (simp add: State_next_def S_START_def)
  with q' that show thesis by blast
qed

lemma built_hyphen_tag:
  assumes "built A h"
  shows "T (h ! 3) = None" "3 < length h - 1" "\<not> State_accepts h 3"
proof -
  from assms obtain n where n: "length h = Suc n" "20 \<le> n" "\<forall>q<20. T (h ! q) = T (base ! q)"
    by (rule builtE)
  from n show "T (h ! 3) = None" by (simp add: base_tags)
  from n show "3 < length h - 1" by simp
  from n show "\<not> State_accepts h 3" by (simp add: base_tags State_accepts_def)
qed

lemma hyphens_walk:
  assumes B: "built True h"
  shows "walk_len h 3 (replicate j (CHR ''-'')) = j"
    "longest_match h 3 (replicate j (CHR ''-'')) = None"
    "walk h 3 (replicate j (CHR ''-'')) = Some 3"
  using built_hyphen_edge[OF B built_hyphen_tag(2)[OF B]] built_hyphen_tag(3)[OF B]
  by (induction j) simp_all

lemma rollback_digit_hyphens:
  assumes B: "built True h" and c: "c \<in> set NUM"
  shows "rollback h (c # replicate k (CHR ''-'')) 0 = int k"
proof -
  let ?str = "c # replicate k (CHR ''-'')"
  have l: "lowerStr ?str = ?str"
    using lower_char_id(1)[OF NUM_ALPHANUM[OF c]] by (simp add: lowerStr_def lower_char_id(2))
  from built_digit_start[OF B c] obtain q where
    q: "State_next h S_START c = Some q" "q < length h - 1" "dom_tag (T (h ! q))" by blast
  from q(3) have acc: "State_accepts h q" by (simp add: State_accepts_def)
  have wl: "walk_len h q (replicate k (CHR ''-'')) = k
     \<and> longest_match h q (replicate k (CHR ''-'')) = None"
  proof (cases k)
    case 0
    then show ?thesis by simp
  next
    case (Suc j)
    with built_hyphen_edge[OF B q(2)] q(3) hyphens_walk(1,2)[OF B, of j]
      built_hyphen_tag(3)[OF B] show ?thesis by simp
  qed
  with q acc have m: "longest_match h S_START (drop 0 (lowerStr ?str)) = Some (1, q)"
    and w: "walk_len h S_START (drop 0 (lowerStr ?str)) = Suc k"
    unfolding l by simp_all
  from iteration_fields(2)[OF _ m] w show ?thesis by simp
qed

text \<open>The literals that the module inserts, for the list \<open>tlds\<close> of top-level domains.\<close>

definition literals :: "string list \<Rightarrow> string list" where
  "literals tlds = tlds @ [''file'', ''ftp'', ''http'', ''ftps'', ''https'', ''localhost'']"

definition longest_literal :: "string list \<Rightarrow> nat" where
  "longest_literal tlds = fold max (map length (literals tlds)) 0"



lemma isl_scanner_nil: "\<not> isl (scanner [])"
  using scanner_nil by auto

section \<open>Characters, unmapped characters and the origin of a token\<close>

lemma lowerStr_simps [simp]:
  "lowerStr [] = []" "lowerStr (c # cs) = lower_char c # lowerStr cs"
  "lowerStr (u @ v) = lowerStr u @ lowerStr v"
  "drop n (lowerStr str) = lowerStr (drop n str)"
  "take n (lowerStr str) = lowerStr (take n str)"
  by (simp_all add: lowerStr_def drop_map take_map)

lemma lower_char_cases:
  "lower_char c = c \<or>
   (c \<in> set ''ABCDEFGHIJKLMNOPQRSTUVWXYZ'' \<and> lower_char c \<in> set ''abcdefghijklmnopqrstuvwxyz'')"
proof (cases "c \<in> set ''ABCDEFGHIJKLMNOPQRSTUVWXYZ''")
  case False
  then have "lower_char c = c" unfolding lower_char_def by (rule if_not_P)
  then show ?thesis by blast
next
  case True
  then have "lower_char c \<in> set ''abcdefghijklmnopqrstuvwxyz''"
    by (simp only: set_simps insert_iff empty_iff; elim disjE FalseE;
        simp add: lower_char_def char_of_def bit_0)
  with True show ?thesis by blast
qed

lemma upper_props:
  assumes "c \<in> set ''ABCDEFGHIJKLMNOPQRSTUVWXYZ''"
  shows "c \<notin> set WHITESPACE" "c \<noteq> CHR 0x0A" "c \<noteq> CHR ''-''" "c \<noteq> COLON"
    "c \<notin> set ALPHANUM" "base_start c = None"
  using assms
  by (simp_all only: set_simps insert_iff empty_iff; elim disjE FalseE;
      simp add: WHITESPACE_def COLON_def ALPHANUM_def base_start_def)+

lemma lower_props:
  assumes "c \<in> set ''abcdefghijklmnopqrstuvwxyz''"
  shows "c \<notin> set WHITESPACE" "c \<noteq> CHR 0x0A" "c \<noteq> CHR ''-''" "c \<noteq> COLON"
    "c \<in> set ALPHANUM"
  using assms
  by (simp_all only: set_simps insert_iff empty_iff; elim disjE FalseE;
      simp add: WHITESPACE_def COLON_def ALPHANUM_def)+

lemma lower_char_ws [simp]:
  "lower_char c \<in> set WHITESPACE \<longleftrightarrow> c \<in> set WHITESPACE"
  using lower_char_cases[of c] upper_props(1)[of c] lower_props(1)[of "lower_char c"] by metis

lemma lower_char_eq_iff [simp]:
  "lower_char c = CHR 0x0A \<longleftrightarrow> c = CHR 0x0A"
  "lower_char c = CHR ''-'' \<longleftrightarrow> c = CHR ''-''"
  "lower_char c = COLON \<longleftrightarrow> c = COLON"
  using lower_char_cases[of c] upper_props(2,3,4)[of c] lower_props(2,3,4)[of "lower_char c"] by metis+








lemma base_start_special [simp]:
  "base_start COLON = Some 11" "base_start (CHR 0x0A) = Some 19" "base_start (CHR ''.'') = Some 6"
  "base_start (CHR ''/'') = Some 10"
  by (simp_all add: base_start_def COLON_def)




section \<open>Whitespace and line breaks\<close>

lemma lowerStr_eq_Nil [simp]: "lowerStr s = [] \<longleftrightarrow> s = []"
  by (simp add: lowerStr_def)





















section \<open>The walk of an inserted literal\<close>












text \<open>A walk of the construction is a walk of every later store.\<close>

definition keeps :: "heap \<Rightarrow> heap \<Rightarrow> bool" where
  "keeps h h' \<longleftrightarrow>
     (\<forall>p<length h. T (h' ! p) = T (h ! p)
        \<and> (\<forall>c q. jmap (h ! p) c = Some q \<longrightarrow> jmap (h' ! p) c = Some q))"

lemma ext_keeps: "ext h h' \<Longrightarrow> keeps h h'"
  by (simp add: ext_def keeps_def)

lemma keeps_trans: "keeps h1 h2 \<Longrightarrow> length h1 \<le> length h2 \<Longrightarrow> keeps h2 h3 \<Longrightarrow> keeps h1 h3"
  unfolding keeps_def by fastforce








section \<open>Tokens of protocols and of domain labels\<close>















section \<open>The claims\<close>

text \<open>
  C1. For every input string, \<open>run\<close> returns a token sequence, and the texts of the
  tokens, concatenated in order, are the input: same characters, same case, same length,
  no gap and no overlap. It holds for every list of top-level domains with which the
  construction of the automaton succeeds.
\<close>

theorem C1_tokens_tile_input:
  assumes "scanner tlds = Inr h"
  shows "\<exists>tokens. run h str = Some (Inr tokens) \<and> concat (map tok_text tokens) = str"
  using run_scan_tokens[OF scanner_start_ok[OF assms], of str]
    scan_tokens_concat[OF scanner_start_ok[OF assms], of "lowerStr str" str]
  by simp

theorem C1_tokens_tile_input_witness:
  "\<exists>h. scanner [] = Inr h \<and>
     (\<exists>tokens. run h ''Ab-c.d  e'' = Some (Inr tokens) \<and> concat (map tok_text tokens) = ''Ab-c.d  e'')"
proof -
  from scanner_nil obtain h where h: "scanner [] = Inr h" ..
  from C1_tokens_tile_input[OF h, of "''Ab-c.d  e''"] h show ?thesis by blast
qed

text \<open>
  C3, amended. For every input string, \<open>run\<close> returns. The start state has a default
  transition to the accepting state of the catch-all symbol, a state without transitions,
  and the iteration of the outer loop that starts at a cursor \<open>k\<close> inside the input leaves
  the cursor, after the rollback, at least one character further. The rollback distance
  is not bounded by the length of a literal: the characters that the rollback discards
  are hyphens, all of them, and their number is bounded by the rest of the input only.
\<close>

theorem C3_terminates_rollback_hyphens:
  assumes "scanner tlds = Inr h"
  shows "(\<exists>tokens. run h str = Some (Inr tokens))
    \<and> (\<exists>q. d (h ! S_START) = Some q \<and> T (h ! q) = Some T_SYM \<and> (\<forall>c. State_next h q c = None))
    \<and> (\<forall>k<length str.
          0 \<le> rollback h str k
          \<and> int k + 1 \<le> stop h str k - rollback h str k
          \<and> stop h str k \<le> int (length str)
          \<and> (\<forall>i. stop h str k - rollback h str k \<le> int i \<and> int i < stop h str k
                 \<longrightarrow> lowerStr str ! i = CHR ''-''))"
proof -
  have B: "built False h" using scanner_built[OF assms, of False] by simp
  have 1: "\<exists>tokens. run h str = Some (Inr tokens)"
    using run_scan_tokens[OF built_start_ok[OF B], of str] by simp
  have 2: "\<exists>q. d (h ! S_START) = Some q \<and> T (h ! q) = Some T_SYM \<and> (\<forall>c. State_next h q c = None)"
    using built_sym_state[OF B] by blast
  have 3: "\<forall>k<length str.
          0 \<le> rollback h str k
          \<and> int k + 1 \<le> stop h str k - rollback h str k
          \<and> stop h str k \<le> int (length str)
          \<and> (\<forall>i. stop h str k - rollback h str k \<le> int i \<and> int i < stop h str k
                 \<longrightarrow> lowerStr str ! i = CHR ''-'')"
  proof (intro allI impI)
    fix k assume "k < length str"
    note ip = iteration_progress[OF B this]
    show "0 \<le> rollback h str k
          \<and> int k + 1 \<le> stop h str k - rollback h str k
          \<and> stop h str k \<le> int (length str)
          \<and> (\<forall>i. stop h str k - rollback h str k \<le> int i \<and> int i < stop h str k
                 \<longrightarrow> lowerStr str ! i = CHR ''-'')"
      by (intro conjI ip)
  qed
  show ?thesis by (intro conjI 1 2 3)
qed

theorem C3_terminates_rollback_hyphens_witness:
  "\<exists>h. scanner [] = Inr h \<and> (\<exists>tokens. run h ''a1--'' = Some (Inr tokens))
     \<and> 0 \<le> rollback h ''a1--'' 1
     \<and> 2 \<le> stop h ''a1--'' 1 - rollback h ''a1--'' 1
     \<and> stop h ''a1--'' 1 \<le> 4"
proof -
  from scanner_nil obtain h where h: "scanner [] = Inr h" ..
  note t = C3_terminates_rollback_hyphens[OF h, of "''a1--''"]
  from t have 1: "\<exists>tokens. run h ''a1--'' = Some (Inr tokens)" by (rule conjunct1)
  from t[THEN conjunct2, THEN conjunct2, rule_format, of 1]
  have 2: "0 \<le> rollback h ''a1--'' 1 \<and> 2 \<le> stop h ''a1--'' 1 - rollback h ''a1--'' 1
     \<and> stop h ''a1--'' 1 \<le> 4" by simp
  from h 1 2 show ?thesis by blast
qed

text \<open>
  C3 as it is stated fails. With no top-level domain the longest literal is
  \<open>localhost\<close>, nine characters; on a digit followed by ten hyphens the first iteration
  walks over all the hyphens and rolls back ten characters.
\<close>

theorem C3_rollback_exceeds_longest_literal:
  "case scanner [] of Inl e \<Rightarrow> False
   | Inr h \<Rightarrow> rollback h ''1----------'' 0 = 10 \<and> longest_literal [] = 9"
proof -
  from scanner_nil obtain h where h: "scanner [] = Inr h" ..
  have B: "built True h" using scanner_built[OF h, of True] by simp
  have "rollback h (CHR ''1'' # replicate 10 (CHR ''-'')) 0 = int 10"
    by (rule rollback_digit_hyphens[OF B]) (simp add: NUM_def)
  then have "rollback h ''1----------'' 0 = 10" by (simp add: eval_nat_numeral)
  moreover have "longest_literal [] = 9" by (simp add: longest_literal_def literals_def)
  ultimately show ?thesis using h by simp
qed










text \<open>
  C9, amended. The construction of the automaton does not check the list of top-level
  domains: from the empty list it completes without an error, and \<open>run\<close> with the
  automaton that it gives returns, for every input, tokens whose texts make up the input.
\<close>

theorem C9_empty_list_construction_completes:
  "\<exists>h. scanner [] = Inr h \<and>
     (\<forall>str. \<exists>tokens. run h str = Some (Inr tokens) \<and> concat (map tok_text tokens) = str)"
proof -
  from scanner_nil obtain h where h: "scanner [] = Inr h" ..
  have "\<exists>tokens. run h str = Some (Inr tokens) \<and> concat (map tok_text tokens) = str" for str
    using run_scan_tokens[OF scanner_start_ok[OF h], of str]
      scan_tokens_concat[OF scanner_start_ok[OF h], of "lowerStr str" str]
    by simp
  with h show ?thesis by blast
qed

text \<open>
  C9 as it is stated fails: the construction from the empty list is not an error.
\<close>

theorem C9_empty_list_is_no_error:
  "\<not> isl (scanner [])"
  by (rule isl_scanner_nil)

text \<open>
  C10. Every token that \<open>run\<close> emits has a text of at least one character, and the start
  state carries no accept tag.
\<close>

theorem C10_tokens_nonempty:
  assumes "scanner tlds = Inr h"
  shows "\<not> State_accepts h S_START \<and>
    (\<exists>tokens. run h str = Some (Inr tokens) \<and> (\<forall>tok\<in>set tokens. 1 \<le> length (tok_text tok)))"
proof -
  have "built False h" using scanner_built[OF assms, of False] by simp
  then have "T (h ! 0) = None" unfolding built_def by (auto simp: base_tags)
  then have 1: "\<not> State_accepts h S_START" by (simp add: State_accepts_def S_START_def)
  have "\<forall>tok\<in>set (scan_tokens h str (lowerStr str)). 1 \<le> length (tok_text tok)"
    using scan_tokens_nonempty[of "lowerStr str" str _ h]
    by (auto simp: Suc_le_eq)
  with run_scan_tokens[OF scanner_start_ok[OF assms], of str] 1 show ?thesis by simp
qed

theorem C10_tokens_nonempty_witness:
  "\<exists>h. scanner [] = Inr h \<and> \<not> State_accepts h S_START \<and>
    (\<exists>tokens. run h ''a b'' = Some (Inr tokens) \<and> (\<forall>tok\<in>set tokens. 1 \<le> length (tok_text tok)))"
proof -
  from scanner_nil obtain h where h: "scanner [] = Inr h" ..
  from C10_tokens_nonempty[OF h, of "''a b''"] h show ?thesis by blast
qed

end
